theory Spec2Isabelle
  imports Main
begin

section \<open>The Go runtime the packages rest on\<close>

text \<open>
  The two packages under study, \<^verbatim>\<open>context\<close> (the context tree) and \<^verbatim>\<open>stream\<close>
  (reader and writer over one buffered channel), are written against Go's standard
  \<^verbatim>\<open>context\<close> package and Go channels. Pointers are natural numbers indexing a heap.
  Package \<^verbatim>\<open>stream\<close> binds its streams to a context of package \<^verbatim>\<open>ctxtree\<close>, which
  is not among the sources; what the model takes for it is said where the stream is
  defined.
\<close>

datatype error = Canceled | DeadlineExceeded | Failure string

datatype panic = CloseOfClosedChannel | SendOnClosedChannel | MakechanSizeOutOfRange

text \<open>
  What a call does: it returns, it panics, it parks the goroutine (\<open>Blocks\<close>: a channel
  operation that cannot proceed), or it never returns (\<open>Diverges\<close>).
\<close>

datatype 'r outcome = Returns 'r | Panics panic | Blocks | Diverges

subsection \<open>Standard contexts\<close>

text \<open>
  A standard context is derived from \<^verbatim>\<open>context.Background()\<close> or from another standard
  context. \<open>ancestors\<close> lists the contexts it was derived from, nearest first;
  \<open>timer\<close> is the deadline of a context made by \<^verbatim>\<open>WithDeadline\<close> (nanoseconds on the
  clock \<open>now\<close>); \<open>err\<close> is what \<^verbatim>\<open>Err()\<close> returns, and \<^verbatim>\<open>Done()\<close> is closed exactly
  when it is not nil.
\<close>

datatype std_ref = Background | Std nat

record stdctx =
  ancestors :: "nat list"
  timer :: "int option"
  err :: "error option"

subsection \<open>Package context: configuration and nodes\<close>

record Config =
  Timeout :: int
  BufferSize :: int

text \<open>
  The \<^verbatim>\<open>cancel\<close> field of a node is one of two functions: the \<^verbatim>\<open>CancelFunc\<close> that
  \<^verbatim>\<open>WithCancel\<close> returned for standard context \<open>k\<close>, or the closure
  \<^verbatim>\<open>cancelWithPropagation\<close> of \<^verbatim>\<open>NewChild\<close>, which captures that \<^verbatim>\<open>CancelFunc\<close> and
  the pointer to the parent node.
\<close>

datatype cancel_fn = StdCancel nat | CancelWithPropagation nat nat

record ctx_node =
  Context :: nat
  cancel :: cancel_fn
  children :: "nat list"
  config :: Config

record heap =
  now :: int
  stds :: "stdctx list"
  ctxs :: "ctx_node list"

definition empty_heap :: heap where
  "empty_heap = \<lparr>now = 0, stds = [], ctxs = []\<rparr>"

definition std_Done :: "heap \<Rightarrow> nat \<Rightarrow> bool" where
  "std_Done h k = (err (stds h ! k) \<noteq> None)"

text \<open>
  Cancelling standard context \<open>k\<close> with error \<open>e\<close>: nothing if it is already done;
  otherwise it and every context derived from it that is not yet done record \<open>e\<close>.
\<close>

definition cancel_std :: "heap \<Rightarrow> nat \<Rightarrow> error \<Rightarrow> heap" where
  "cancel_std h k e =
     (if err (stds h ! k) \<noteq> None then h
      else h\<lparr>stds :=
             map (\<lambda>(j, c). if (j = k \<or> k \<in> set (ancestors c)) \<and> err c = None
                            then c\<lparr>err := Some e\<rparr> else c)
                 (enumerate 0 (stds h))\<rparr>)"

text \<open>\<^verbatim>\<open>context.WithCancel(parent)\<close>: a child of an already done parent is born done.\<close>

definition WithCancel :: "heap \<Rightarrow> std_ref \<Rightarrow> heap \<times> nat" where
  "WithCancel h parent =
     (case parent of
        Background \<Rightarrow>
          (h\<lparr>stds := stds h @ [\<lparr>ancestors = [], timer = None, err = None\<rparr>]\<rparr>,
           length (stds h))
      | Std p \<Rightarrow>
          (h\<lparr>stds := stds h @ [\<lparr>ancestors = p # ancestors (stds h ! p), timer = None,
                                  err = err (stds h ! p)\<rparr>]\<rparr>,
           length (stds h)))"

text \<open>\<^verbatim>\<open>context.WithDeadline(parent, d)\<close>, for callers that hand such a context in.\<close>

definition WithDeadline :: "heap \<Rightarrow> std_ref \<Rightarrow> int \<Rightarrow> heap \<times> nat" where
  "WithDeadline h parent d =
     (let expired = (if d \<le> now h then Some DeadlineExceeded else None) in
      case parent of
        Background \<Rightarrow>
          (h\<lparr>stds := stds h @ [\<lparr>ancestors = [], timer = Some d, err = expired\<rparr>]\<rparr>,
           length (stds h))
      | Std p \<Rightarrow>
          (h\<lparr>stds := stds h @ [\<lparr>ancestors = p # ancestors (stds h ! p), timer = Some d,
                                  err = (case err (stds h ! p) of Some e \<Rightarrow> Some e
                                         | None \<Rightarrow> expired)\<rparr>]\<rparr>,
           length (stds h)))"

text \<open>
  The clock advances by \<open>d\<close> nanoseconds and the runtime fires every timer that is due:
  the context of a due timer is cancelled with \<open>DeadlineExceeded\<close>.
\<close>

definition fire :: "nat \<Rightarrow> heap \<Rightarrow> heap" where
  "fire k h =
     (case timer (stds h ! k) of
        None \<Rightarrow> h
      | Some t \<Rightarrow> if t \<le> now h then cancel_std h k DeadlineExceeded else h)"

definition elapse :: "heap \<Rightarrow> int \<Rightarrow> heap" where
  "elapse h d = fold fire [0..<length (stds h)] (h\<lparr>now := now h + d\<rparr>)"

section \<open>Package context\<close>

definition DefaultConfig :: Config where
  "DefaultConfig = \<lparr>Timeout = 5 * 1000000000, BufferSize = 1000\<rparr>"

definition FromStdContext :: "heap \<Rightarrow> std_ref \<Rightarrow> heap \<times> nat" where
  "FromStdContext h stdCtx =
     (let (h1, k) = WithCancel h stdCtx in
      (h1\<lparr>ctxs := ctxs h1 @ [\<lparr>Context = k, cancel = StdCancel k, children = [],
                                config = DefaultConfig\<rparr>]\<rparr>,
       length (ctxs h1)))"

definition context_New :: "heap \<Rightarrow> heap \<times> nat" where
  "context_New h = FromStdContext h Background"

definition context_Config :: "heap \<Rightarrow> nat \<Rightarrow> Config" where
  "context_Config h ctx = config (ctxs h ! ctx)"

text \<open>\<^verbatim>\<open>Done()\<close> and \<^verbatim>\<open>Err()\<close> are those of the embedded standard context.\<close>

definition context_Done :: "heap \<Rightarrow> nat \<Rightarrow> bool" where
  "context_Done h ctx = std_Done h (Context (ctxs h ! ctx))"

definition context_Err :: "heap \<Rightarrow> nat \<Rightarrow> error option" where
  "context_Err h ctx = err (stds h ! Context (ctxs h ! ctx))"

text \<open>
  The loop of \<^verbatim>\<open>Close\<close> over the children: the non-blocking receive from
  \<^verbatim>\<open>child.Done()\<close> succeeds when the child is done; the \<^verbatim>\<open>default\<close> branch returns.
\<close>

fun children_done :: "heap \<Rightarrow> nat list \<Rightarrow> bool" where
  "children_done h [] = True"
| "children_done h (child # rest) =
     (if context_Done h child then children_done h rest else False)"

text \<open>
  \<^verbatim>\<open>Close\<close>: return at the first child that is not done, else call \<^verbatim>\<open>ctx.cancel()\<close>.
  For a node made by \<^verbatim>\<open>NewChild\<close> that is \<^verbatim>\<open>cancelWithPropagation\<close>, which cancels the
  node's standard context and then calls \<^verbatim>\<open>parent.Close()\<close>. The recursion follows
  parent pointers of the heap, so \<open>None\<close> stands for a call that does not return.
\<close>

partial_function (option) context_Close :: "heap \<Rightarrow> nat \<Rightarrow> heap option" where
  "context_Close h ctx =
     (if children_done h (children (ctxs h ! ctx))
      then (case cancel (ctxs h ! ctx) of
              StdCancel k \<Rightarrow> Some (cancel_std h k Canceled)
            | CancelWithPropagation k parent \<Rightarrow>
                context_Close (cancel_std h k Canceled) parent)
      else Some h)"

declare context_Close.simps [code]

text \<open>Calling a node's \<^verbatim>\<open>cancel\<close> field.\<close>

definition call_cancel :: "heap \<Rightarrow> cancel_fn \<Rightarrow> heap option" where
  "call_cancel h f =
     (case f of
        StdCancel k \<Rightarrow> Some (cancel_std h k Canceled)
      | CancelWithPropagation k parent \<Rightarrow> context_Close (cancel_std h k Canceled) parent)"

definition context_NewChild :: "heap \<Rightarrow> nat \<Rightarrow> heap \<times> nat" where
  "context_NewChild h parent =
     (let (h1, k) = WithCancel h (Std (Context (ctxs h ! parent)));
          child = length (ctxs h1);
          h2 = h1\<lparr>ctxs := ctxs h1 @ [\<lparr>Context = k, cancel = CancelWithPropagation k parent,
                                       children = [], config = config (ctxs h1 ! parent)\<rparr>]\<rparr>
      in (h2\<lparr>ctxs := (ctxs h2)[parent := (ctxs h2 ! parent)
                                   \<lparr>children := children (ctxs h2 ! parent) @ [child]\<rparr>]\<rparr>,
          child))"


subsection \<open>Heaps the two packages can build\<close>

text \<open>
  Standard contexts: every recorded ancestor was allocated earlier, ancestry is
  transitive, and a context derived from a done context is done.
\<close>

definition wf_std :: "heap \<Rightarrow> bool" where
  "wf_std h =
     (\<forall>j<length (stds h). \<forall>a\<in>set (ancestors (stds h ! j)).
        a < j \<and> set (ancestors (stds h ! a)) \<subseteq> set (ancestors (stds h ! j))
        \<and> (err (stds h ! a) \<noteq> None \<longrightarrow> err (stds h ! j) \<noteq> None))"

text \<open>
  Nodes: the embedded standard context exists and is the one the node's \<^verbatim>\<open>cancel\<close>
  cancels; the parent captured by \<^verbatim>\<open>cancelWithPropagation\<close> was allocated before the
  child; every child exists and its standard context is derived from the node's.
\<close>

definition wf_ctx :: "heap \<Rightarrow> bool" where
  "wf_ctx h =
     (\<forall>i<length (ctxs h).
        Context (ctxs h ! i) < length (stds h)
        \<and> (case cancel (ctxs h ! i) of
             StdCancel k \<Rightarrow> k = Context (ctxs h ! i)
           | CancelWithPropagation k p \<Rightarrow> k = Context (ctxs h ! i) \<and> p < i)
        \<and> (\<forall>c\<in>set (children (ctxs h ! i)).
             c < length (ctxs h)
             \<and> Context (ctxs h ! i) \<in> set (ancestors (stds h ! Context (ctxs h ! c)))))"

definition wf :: "heap \<Rightarrow> bool" where
  "wf h = (wf_std h \<and> wf_ctx h)"

text \<open>The nodes below a node of the tree: the node itself, and the children of those.\<close>

inductive descendant :: "heap \<Rightarrow> nat \<Rightarrow> nat \<Rightarrow> bool" for h :: heap and n :: nat where
  self: "descendant h n n"
| child: "descendant h n m \<Longrightarrow> c \<in> set (children (ctxs h ! m)) \<Longrightarrow> descendant h n c"

section \<open>Go channels\<close>

record 'a chan =
  chan_buf :: "'a list"
  chan_cap :: nat
  chan_closed :: bool

text \<open>\<^verbatim>\<open>make(chan T, n)\<close> panics on a negative size.\<close>

definition make_chan :: "int \<Rightarrow> 'a chan outcome" where
  "make_chan n =
     (if n < 0 then Panics MakechanSizeOutOfRange
      else Returns \<lparr>chan_buf = [], chan_cap = nat n, chan_closed = False\<rparr>)"

text \<open>
  A send panics on a closed channel, appends to the buffer when there is room and parks
  the sender otherwise. A receive takes the oldest buffered item; on an empty buffer it
  reports the closed channel (\<open>None\<close>) or parks the receiver. Closing twice panics.
\<close>

definition chan_send :: "'a chan \<Rightarrow> 'a \<Rightarrow> 'a chan outcome" where
  "chan_send c x =
     (if chan_closed c then Panics SendOnClosedChannel
      else if length (chan_buf c) < chan_cap c then Returns (c\<lparr>chan_buf := chan_buf c @ [x]\<rparr>)
      else Blocks)"

definition chan_recv :: "'a chan \<Rightarrow> ('a option \<times> 'a chan) outcome" where
  "chan_recv c =
     (case chan_buf c of
        x # rest \<Rightarrow> Returns (Some x, c\<lparr>chan_buf := rest\<rparr>)
      | [] \<Rightarrow> if chan_closed c then Returns (None, c) else Blocks)"

definition chan_close :: "'a chan \<Rightarrow> 'a chan outcome" where
  "chan_close c =
     (if chan_closed c then Panics CloseOfClosedChannel
      else Returns (c\<lparr>chan_closed := True\<rparr>))"

section \<open>Package stream\<close>

text \<open>
  What the goroutines of a pipeline share: the context tree, the cause recorded for each
  closed node, and the channels.
\<close>

record 'a world =
  tree :: heap
  causes :: "nat \<Rightarrow> error option"
  chans :: "'a chan list"

subsection \<open>The context a stream is bound to\<close>

text \<open>
  \<^verbatim>\<open>stream.go\<close> binds a stream to a \<^verbatim>\<open>ctxtree.Context\<close> and calls its \<^verbatim>\<open>Config\<close>,
  \<^verbatim>\<open>Done\<close>, \<^verbatim>\<open>Err\<close>, \<^verbatim>\<open>Close(err)\<close> and \<^verbatim>\<open>NewChild\<close>. The spec describes the tree of
  that package as package context has it: a root with the default configuration, a child
  that inherits it and is appended to its parent, a done signal per node, and a close
  that goes through only when every child is done. For those the model takes the tree of
  package context. \<^verbatim>\<open>Close\<close> with a cause and \<^verbatim>\<open>Err\<close> are not those of package context
  (its \<^verbatim>\<open>Close\<close> takes no cause); they follow.
\<close>

text \<open>
  Modelled from the spec: \<^verbatim>\<open>Close(cause)\<close> of package \<^verbatim>\<open>ctxtree\<close>, which \<^verbatim>\<open>stream.go\<close>
  imports and which is not among the sources. The spec: if the node is already closed,
  no-op; else, if any child is not yet done, no-op; otherwise the node is marked done and
  the cause is recorded (the first recorded cause wins), and the close function of a child
  then attempts to close the parent. The check on the children and the attempt on the
  parent are \<^verbatim>\<open>Close\<close> of package context. The spec does not say which cause the attempt
  on the parent carries; here it is the same cause, so every node this call marks done
  records it.
\<close>

definition ctxtree_Close :: "'a world \<Rightarrow> nat \<Rightarrow> error option \<Rightarrow> 'a world option" where
  "ctxtree_Close s ctx cause =
     (if context_Done (tree s) ctx then Some s
      else (case context_Close (tree s) ctx of
              None \<Rightarrow> None
            | Some h \<Rightarrow>
                Some (s\<lparr>tree := h,
                        causes := (\<lambda>n. if n < length (ctxs h) \<and> \<not> context_Done (tree s) n
                                           \<and> context_Done h n
                                        then cause else causes s n)\<rparr>)))"

text \<open>
  Modelled from the spec: \<^verbatim>\<open>Err()\<close> of package \<^verbatim>\<open>ctxtree\<close>, not among the sources. The
  spec: the recorded cause, or none if the node closed gracefully or is still open.
\<close>

definition ctxtree_Err :: "'a world \<Rightarrow> nat \<Rightarrow> error option" where
  "ctxtree_Err s ctx = (if context_Done (tree s) ctx then causes s ctx else None)"

record reader =
  reader_ctx :: nat
  reader_ch :: nat

record writer =
  writer_ctx :: nat
  writer_ch :: nat

definition stream_New :: "'a world \<Rightarrow> nat \<Rightarrow> ('a world \<times> reader \<times> writer) outcome" where
  "stream_New s ctx =
     (case make_chan (BufferSize (context_Config (tree s) ctx)) of
        Returns c \<Rightarrow>
          Returns (s\<lparr>chans := chans s @ [c]\<rparr>,
                   \<lparr>reader_ctx = ctx, reader_ch = length (chans s)\<rparr>,
                   \<lparr>writer_ctx = ctx, writer_ch = length (chans s)\<rparr>)
      | Panics p \<Rightarrow> Panics p
      | Blocks \<Rightarrow> Blocks
      | Diverges \<Rightarrow> Diverges)"

definition reader_Read :: "reader \<Rightarrow> nat" where
  "reader_Read r = reader_ch r"

definition reader_Done :: "'a world \<Rightarrow> reader \<Rightarrow> bool" where
  "reader_Done s r = context_Done (tree s) (reader_ctx r)"

text \<open>\<^verbatim>\<open>Close\<close>: \<^verbatim>\<open>reader.ctx.Close(err)\<close>, handing the cause on.\<close>

definition reader_Close :: "'a world \<Rightarrow> reader \<Rightarrow> error option \<Rightarrow> 'a world outcome" where
  "reader_Close s r cause =
     (case ctxtree_Close s (reader_ctx r) cause of
        None \<Rightarrow> Diverges
      | Some s' \<Rightarrow> Returns s')"

definition reader_NewDownstream ::
  "'a world \<Rightarrow> reader \<Rightarrow> ('a world \<times> reader \<times> writer) outcome" where
  "reader_NewDownstream s r =
     (let (h, child) = context_NewChild (tree s) (reader_ctx r)
      in stream_New (s\<lparr>tree := h\<rparr>) child)"

text \<open>
  A send can proceed on a channel with room, and on a closed channel (where it panics).
\<close>

definition send_ready :: "'a chan \<Rightarrow> bool" where
  "send_ready c = (chan_closed c \<or> length (chan_buf c) < chan_cap c)"

text \<open>
  The inner \<^verbatim>\<open>select\<close> of \<^verbatim>\<open>write\<close>, between the send and the receive from
  \<^verbatim>\<open>ctx.Done()\<close>. With neither ready the writer is parked; with both ready Go picks one
  at random, which is the argument \<open>prefer_send\<close>.
\<close>

definition inner_select ::
  "'a world \<Rightarrow> writer \<Rightarrow> 'a \<Rightarrow> bool \<Rightarrow> (error option \<times> 'a world) outcome" where
  "inner_select s w data prefer_send =
     (if send_ready (chans s ! writer_ch w)
         \<and> (prefer_send \<or> \<not> context_Done (tree s) (writer_ctx w))
      then (case chan_send (chans s ! writer_ch w) data of
              Returns c \<Rightarrow> Returns (None, s\<lparr>chans := (chans s)[writer_ch w := c]\<rparr>)
            | Panics p \<Rightarrow> Panics p
            | Blocks \<Rightarrow> Blocks
            | Diverges \<Rightarrow> Diverges)
      else if context_Done (tree s) (writer_ctx w)
      then Returns (ctxtree_Err s (writer_ctx w), s)
      else Blocks)"

text \<open>
  \<^verbatim>\<open>write\<close>: the outer \<^verbatim>\<open>select\<close> returns \<^verbatim>\<open>ctx.Err()\<close> when the context is done
  and falls through to the inner \<^verbatim>\<open>select\<close> otherwise. Within one call nothing runs
  between the two, so the inner \<^verbatim>\<open>select\<close> sees the context not done and Go's choice
  does not arise.
\<close>

definition writer_write :: "'a world \<Rightarrow> writer \<Rightarrow> 'a \<Rightarrow> (error option \<times> 'a world) outcome" where
  "writer_write s w data =
     (if context_Done (tree s) (writer_ctx w)
      then Returns (ctxtree_Err s (writer_ctx w), s)
      else inner_select s w data True)"

fun writer_Write :: "'a world \<Rightarrow> writer \<Rightarrow> 'a list \<Rightarrow> (error option \<times> 'a world) outcome" where
  "writer_Write s w [] = Returns (None, s)"
| "writer_Write s w (item # items) =
     (case writer_write s w item of
        Returns (None, s') \<Rightarrow> writer_Write s' w items
      | Returns (Some e, s') \<Rightarrow> Returns (Some e, s')
      | Panics p \<Rightarrow> Panics p
      | Blocks \<Rightarrow> Blocks
      | Diverges \<Rightarrow> Diverges)"

text \<open>
  The same loop run next to other goroutines: before each item the rest of the program
  takes a step \<open>env\<close> on the shared state.
\<close>

fun writer_Write_env ::
  "'a world \<Rightarrow> writer \<Rightarrow> (('a world \<Rightarrow> 'a world) \<times> 'a) list
     \<Rightarrow> (error option \<times> 'a world) outcome" where
  "writer_Write_env s w [] = Returns (None, s)"
| "writer_Write_env s w ((env, item) # items) =
     (case writer_write (env s) w item of
        Returns (None, s') \<Rightarrow> writer_Write_env s' w items
      | Returns (Some e, s') \<Rightarrow> Returns (Some e, s')
      | Panics p \<Rightarrow> Panics p
      | Blocks \<Rightarrow> Blocks
      | Diverges \<Rightarrow> Diverges)"

text \<open>
  \<^verbatim>\<open>Close\<close>: the deferred \<^verbatim>\<open>close(writer.ch)\<close> runs after \<^verbatim>\<open>writer.ctx.Close(err)\<close>
  has returned.
\<close>

definition writer_Close :: "'a world \<Rightarrow> writer \<Rightarrow> error option \<Rightarrow> 'a world outcome" where
  "writer_Close s w cause =
     (case ctxtree_Close s (writer_ctx w) cause of
        None \<Rightarrow> Diverges
      | Some s' \<Rightarrow>
          (case chan_close (chans s' ! writer_ch w) of
             Returns c \<Rightarrow> Returns (s'\<lparr>chans := (chans s')[writer_ch w := c]\<rparr>)
           | Panics p \<Rightarrow> Panics p
           | Blocks \<Rightarrow> Blocks
           | Diverges \<Rightarrow> Diverges))"

definition writer_Writable :: "writer \<Rightarrow> nat" where
  "writer_Writable w = writer_ch w"

text \<open>
  \<^verbatim>\<open>Empty\<close>: a stream over a new root whose writer has been closed at once; the reader
  is what the package exports.
\<close>

definition Empty :: "'a world \<Rightarrow> ('a world \<times> reader) outcome" where
  "Empty s =
     (let (h, ctx) = context_New (tree s) in
      case stream_New (s\<lparr>tree := h\<rparr>) ctx of
        Returns (s1, r, w) \<Rightarrow>
          (case writer_Close s1 w None of
             Returns s2 \<Rightarrow> Returns (s2, r)
           | Panics p \<Rightarrow> Panics p
           | Blocks \<Rightarrow> Blocks
           | Diverges \<Rightarrow> Diverges)
      | Panics p \<Rightarrow> Panics p
      | Blocks \<Rightarrow> Blocks
      | Diverges \<Rightarrow> Diverges)"

subsection \<open>Draining a stream\<close>

text \<open>One receive \<^verbatim>\<open><-reader.Read()\<close> on the channel a reader hands out.\<close>

definition recv :: "'a world \<Rightarrow> nat \<Rightarrow> ('a option \<times> 'a world) outcome" where
  "recv s c =
     (case chan_recv (chans s ! c) of
        Returns (v, c') \<Rightarrow> Returns (v, s\<lparr>chans := (chans s)[c := c']\<rparr>)
      | Panics p \<Rightarrow> Panics p
      | Blocks \<Rightarrow> Blocks
      | Diverges \<Rightarrow> Diverges)"

text \<open>
  A consumer's draining loop: up to \<open>n\<close> receives in a row (the matcher \<^verbatim>\<open>Produce\<close>
  receives once per expected item), ending early at a closed and drained channel; the
  result is the items received, in the order received.
\<close>

fun recv_n :: "'a world \<Rightarrow> nat \<Rightarrow> nat \<Rightarrow> ('a list \<times> 'a world) outcome" where
  "recv_n s c 0 = Returns ([], s)"
| "recv_n s c (Suc n) =
     (case recv s c of
        Returns (Some x, s') \<Rightarrow>
          (case recv_n s' c n of
             Returns (xs, s'') \<Rightarrow> Returns (x # xs, s'')
           | Panics p \<Rightarrow> Panics p
           | Blocks \<Rightarrow> Blocks
           | Diverges \<Rightarrow> Diverges)
      | Returns (None, s') \<Rightarrow> Returns ([], s')
      | Panics p \<Rightarrow> Panics p
      | Blocks \<Rightarrow> Blocks
      | Diverges \<Rightarrow> Diverges)"

section \<open>Example trees\<close>

text \<open>A root made by \<^verbatim>\<open>New()\<close> with one child made by \<^verbatim>\<open>NewChild()\<close>, both open.\<close>

definition root_with_child :: heap where
  "root_with_child = fst (context_NewChild (fst (context_New empty_heap)) 0)"

text \<open>
  A caller's cancellable standard context, a root built from it with
  \<^verbatim>\<open>FromStdContext\<close>, a child of the root and a child of that child, all open.
\<close>

definition cancellable_chain :: heap where
  "cancellable_chain =
     fst (context_NewChild
           (fst (context_NewChild
                  (fst (FromStdContext (fst (WithCancel empty_heap Background)) (Std 0))) 0)) 1)"

section \<open>Example streams\<close>

text \<open>
  The root made by \<^verbatim>\<open>New()\<close>, the stream \<^verbatim>\<open>stream.New\<close> makes over it (reader \<open>r0\<close>,
  writer \<open>w0\<close>, capacity 1000) with given buffer contents, the root after it has closed,
  and another goroutine that closes the stream through the reader, with a cause or none.
\<close>

definition root_heap :: heap where
  "root_heap = fst (context_New empty_heap)"

definition root_world :: "nat world" where
  "root_world = \<lparr>tree = root_heap, causes = (\<lambda>n. None), chans = []\<rparr>"

definition r0 :: reader where
  "r0 = \<lparr>reader_ctx = 0, reader_ch = 0\<rparr>"

definition w0 :: writer where
  "w0 = \<lparr>writer_ctx = 0, writer_ch = 0\<rparr>"

definition stream0 :: "nat list \<Rightarrow> bool \<Rightarrow> nat world" where
  "stream0 items is_closed =
     \<lparr>tree = root_heap, causes = (\<lambda>n. None),
      chans = [\<lparr>chan_buf = items, chan_cap = 1000, chan_closed = is_closed\<rparr>]\<rparr>"

definition root_closes :: "error option \<Rightarrow> nat world \<Rightarrow> nat world" where
  "root_closes cause s = (case reader_Close s r0 cause of Returns s' \<Rightarrow> s' | _ \<Rightarrow> s)"

definition root_heap_done :: heap where
  "root_heap_done =
     \<lparr>now = 0, stds = [\<lparr>ancestors = [], timer = None, err = Some Canceled\<rparr>],
      ctxs = [\<lparr>Context = 0, cancel = StdCancel 0, children = [], config = DefaultConfig\<rparr>]\<rparr>"

text \<open>The stream after its context has closed with the failure \<open>e\<close> as cause.\<close>

definition stream0_failed :: "nat list \<Rightarrow> error \<Rightarrow> nat world" where
  "stream0_failed items e =
     (stream0 items False)\<lparr>tree := root_heap_done, causes := (\<lambda>n. None)(0 := Some e)\<rparr>"

text \<open>A stream over the root of \<open>root_with_child\<close>, whose child is still open.\<close>

definition parent_stream :: "nat list \<Rightarrow> bool \<Rightarrow> nat world" where
  "parent_stream items is_closed =
     \<lparr>tree = root_with_child, causes = (\<lambda>n. None),
      chans = [\<lparr>chan_buf = items, chan_cap = 1000, chan_closed = is_closed\<rparr>]\<rparr>"

section \<open>Cancelling standard contexts\<close>

lemma length_cancel_std [simp]: "length (stds (cancel_std h k e)) = length (stds h)"
  by (simp add: cancel_std_def)

lemma ctxs_cancel_std [simp]: "ctxs (cancel_std h k e) = ctxs h"
  by (simp add: cancel_std_def)

lemma now_cancel_std [simp]: "now (cancel_std h k e) = now h"
  by (simp add: cancel_std_def)

lemma nth_cancel_std:
  "j < length (stds h) \<Longrightarrow>
   stds (cancel_std h k e) ! j =
     (if err (stds h ! k) = None \<and> (j = k \<or> k \<in> set (ancestors (stds h ! j)))
         \<and> err (stds h ! j) = None
      then (stds h ! j)\<lparr>err := Some e\<rparr> else stds h ! j)"
  by (simp add: cancel_std_def nth_enumerate_eq)

lemma ancestors_cancel_std [simp]:
  "j < length (stds h) \<Longrightarrow> ancestors (stds (cancel_std h k e) ! j) = ancestors (stds h ! j)"
  by (simp add: nth_cancel_std)

lemma timer_cancel_std [simp]:
  "j < length (stds h) \<Longrightarrow> timer (stds (cancel_std h k e) ! j) = timer (stds h ! j)"
  by (simp add: nth_cancel_std)

lemma err_cancel_std_mono:
  "j < length (stds h) \<Longrightarrow> err (stds h ! j) \<noteq> None \<Longrightarrow>
   err (stds (cancel_std h k e) ! j) = err (stds h ! j)"
  by (simp add: nth_cancel_std)

lemma cancel_std_self:
  "k < length (stds h) \<Longrightarrow> err (stds (cancel_std h k e) ! k) \<noteq> None"
  by (simp add: nth_cancel_std)

lemma wf_stdD:
  assumes "wf_std h" "j < length (stds h)" "a \<in> set (ancestors (stds h ! j))"
  shows "a < j" and "a < length (stds h)"
    and "set (ancestors (stds h ! a)) \<subseteq> set (ancestors (stds h ! j))"
    and "err (stds h ! a) \<noteq> None \<Longrightarrow> err (stds h ! j) \<noteq> None"
proof -
  from assms have *: "a < j \<and> set (ancestors (stds h ! a)) \<subseteq> set (ancestors (stds h ! j))
        \<and> (err (stds h ! a) \<noteq> None \<longrightarrow> err (stds h ! j) \<noteq> None)"
    unfolding wf_std_def by blast
  from * show "a < j" by simp
  with assms(2) show "a < length (stds h)" by simp
  from * show "set (ancestors (stds h ! a)) \<subseteq> set (ancestors (stds h ! j))" by simp
  from * show "err (stds h ! a) \<noteq> None \<Longrightarrow> err (stds h ! j) \<noteq> None" by simp
qed

lemma cancel_std_descendant:
  "wf_std h \<Longrightarrow> j < length (stds h) \<Longrightarrow> k \<in> set (ancestors (stds h ! j)) \<Longrightarrow>
   err (stds (cancel_std h k e) ! j) \<noteq> None"
  using wf_stdD(4) [of h j k] by (auto simp add: nth_cancel_std)

lemma wf_std_cancel_std:
  assumes "wf_std h"
  shows "wf_std (cancel_std h k e)"
  unfolding wf_std_def
proof (intro allI impI ballI)
  fix j a
  assume j: "j < length (stds (cancel_std h k e))"
    and a: "a \<in> set (ancestors (stds (cancel_std h k e) ! j))"
  from j have j': "j < length (stds h)" by simp
  with a have a': "a \<in> set (ancestors (stds h ! j))" by simp
  note D = wf_stdD [OF assms j' a']
  have sub: "set (ancestors (stds (cancel_std h k e) ! a))
               \<subseteq> set (ancestors (stds (cancel_std h k e) ! j))"
    using D(2,3) j' by simp
  have imp: "err (stds (cancel_std h k e) ! a) \<noteq> None
                \<longrightarrow> err (stds (cancel_std h k e) ! j) \<noteq> None"
  proof
    assume done_a: "err (stds (cancel_std h k e) ! a) \<noteq> None"
    show "err (stds (cancel_std h k e) ! j) \<noteq> None"
    proof (cases "err (stds h ! a) = None")
      case False
      then have "err (stds h ! j) \<noteq> None" using D(4) by simp
      then show ?thesis using j' by (simp add: nth_cancel_std)
    next
      case True
      have hit: "err (stds h ! k) = None \<and> (a = k \<or> k \<in> set (ancestors (stds h ! a)))"
      proof (rule ccontr)
        assume "\<not> ?thesis"
        then have "stds (cancel_std h k e) ! a = stds h ! a"
          using D(2) by (auto simp add: nth_cancel_std)
        with done_a True show False by simp
      qed
      then have "k \<in> set (ancestors (stds h ! j))" using a' D(3) by blast
      with hit show ?thesis using j'
        by (simp add: nth_cancel_std)
    qed
  qed
  from D(1) sub imp
  show "a < j \<and> set (ancestors (stds (cancel_std h k e) ! a))
                   \<subseteq> set (ancestors (stds (cancel_std h k e) ! j))
        \<and> (err (stds (cancel_std h k e) ! a) \<noteq> None
             \<longrightarrow> err (stds (cancel_std h k e) ! j) \<noteq> None)"
    by blast
qed

lemma wf_ctx_cancel_std: "wf_ctx h \<Longrightarrow> wf_ctx (cancel_std h k e)"
  unfolding wf_ctx_def by (simp cong: cancel_fn.case_cong)

lemma wf_cancel_std: "wf h \<Longrightarrow> wf (cancel_std h k e)"
  by (simp add: wf_def wf_std_cancel_std wf_ctx_cancel_std)


lemma wf_ctxD:
  assumes "wf_ctx h" "i < length (ctxs h)"
  shows "Context (ctxs h ! i) < length (stds h)"
    and "cancel (ctxs h ! i) = StdCancel k \<Longrightarrow> k = Context (ctxs h ! i)"
    and "cancel (ctxs h ! i) = CancelWithPropagation k p \<Longrightarrow> k = Context (ctxs h ! i) \<and> p < i"
    and "c \<in> set (children (ctxs h ! i)) \<Longrightarrow>
           c < length (ctxs h)
           \<and> Context (ctxs h ! i) \<in> set (ancestors (stds h ! Context (ctxs h ! c)))"
proof -
  from assms have *: "Context (ctxs h ! i) < length (stds h)
        \<and> (case cancel (ctxs h ! i) of
             StdCancel k \<Rightarrow> k = Context (ctxs h ! i)
           | CancelWithPropagation k p \<Rightarrow> k = Context (ctxs h ! i) \<and> p < i)
        \<and> (\<forall>c\<in>set (children (ctxs h ! i)).
             c < length (ctxs h)
             \<and> Context (ctxs h ! i) \<in> set (ancestors (stds h ! Context (ctxs h ! c))))"
    unfolding wf_ctx_def by blast
  from * show "Context (ctxs h ! i) < length (stds h)" by simp
  from * show "cancel (ctxs h ! i) = StdCancel k \<Longrightarrow> k = Context (ctxs h ! i)" by simp
  from * show "cancel (ctxs h ! i) = CancelWithPropagation k p \<Longrightarrow> k = Context (ctxs h ! i) \<and> p < i"
    by simp
  from * show "c \<in> set (children (ctxs h ! i)) \<Longrightarrow>
           c < length (ctxs h)
           \<and> Context (ctxs h ! i) \<in> set (ancestors (stds h ! Context (ctxs h ! c)))"
    by simp
qed

lemma children_done_iff: "children_done h cs = (\<forall>c\<in>set cs. context_Done h c)"
  by (induction cs) auto

lemma context_Close_total:
  "wf h \<Longrightarrow> i < length (ctxs h) \<Longrightarrow>
   \<exists>h'. context_Close h i = Some h' \<and> wf h' \<and> ctxs h' = ctxs h
        \<and> length (stds h') = length (stds h) \<and> now h' = now h
        \<and> (\<forall>j<length (stds h). err (stds h ! j) \<noteq> None
              \<longrightarrow> err (stds h' ! j) = err (stds h ! j))"
proof (induction i arbitrary: h rule: less_induct)
  case (less i)
  show ?case
  proof (cases "children_done h (children (ctxs h ! i))")
    case False
    then have "context_Close h i = Some h"
      by (subst context_Close.simps) simp
    with less.prems show ?thesis by simp
  next
    case True
    show ?thesis
    proof (cases "cancel (ctxs h ! i)")
      case (StdCancel k)
      with True have "context_Close h i = Some (cancel_std h k Canceled)"
        by (subst context_Close.simps) simp
      with less.prems show ?thesis
        by (simp add: wf_cancel_std err_cancel_std_mono)
    next
      case (CancelWithPropagation k p)
      with True have eq: "context_Close h i = context_Close (cancel_std h k Canceled) p"
        by (subst context_Close.simps) simp
      from less.prems have "wf_ctx h" by (simp add: wf_def)
      from wf_ctxD(3) [OF this less.prems(2) CancelWithPropagation] have "p < i" by simp
      moreover have "wf (cancel_std h k Canceled)" using less.prems(1) by (rule wf_cancel_std)
      moreover have "p < length (ctxs (cancel_std h k Canceled))"
        using \<open>p < i\<close> less.prems(2) by simp
      ultimately obtain h' where h': "context_Close (cancel_std h k Canceled) p = Some h'"
        "wf h'" "ctxs h' = ctxs (cancel_std h k Canceled)"
        "length (stds h') = length (stds (cancel_std h k Canceled))"
        "now h' = now (cancel_std h k Canceled)"
        "\<forall>j<length (stds (cancel_std h k Canceled)).
            err (stds (cancel_std h k Canceled) ! j) \<noteq> None
              \<longrightarrow> err (stds h' ! j) = err (stds (cancel_std h k Canceled) ! j)"
        using less.IH by blast
      have "\<forall>j<length (stds h). err (stds h ! j) \<noteq> None
              \<longrightarrow> err (stds h' ! j) = err (stds h ! j)"
      proof (intro allI impI)
        fix j assume j: "j < length (stds h)" and d: "err (stds h ! j) \<noteq> None"
        then have "err (stds (cancel_std h k Canceled) ! j) = err (stds h ! j)"
          by (simp add: err_cancel_std_mono)
        with h'(6) j d show "err (stds h' ! j) = err (stds h ! j)" by simp
      qed
      with eq h' show ?thesis by simp
    qed
  qed
qed

section \<open>Building trees keeps them well formed\<close>

lemma wf_empty: "wf empty_heap"
  by (simp add: wf_def wf_std_def wf_ctx_def empty_heap_def)

lemma WithCancel_stds:
  "stds (fst (WithCancel h r)) =
     stds h @ [case r of
                 Background \<Rightarrow> \<lparr>ancestors = [], timer = None, err = None\<rparr>
               | Std p \<Rightarrow> \<lparr>ancestors = p # ancestors (stds h ! p), timer = None,
                            err = err (stds h ! p)\<rparr>]"
  by (simp add: WithCancel_def split: std_ref.splits)

lemma WithCancel_rest [simp]:
  "ctxs (fst (WithCancel h r)) = ctxs h"
  "now (fst (WithCancel h r)) = now h"
  "snd (WithCancel h r) = length (stds h)"
  by (simp_all add: WithCancel_def split: std_ref.splits)

lemma wf_std_append:
  assumes "wf_std h"
    and new: "\<And>a. a \<in> set (ancestors c) \<Longrightarrow>
           a < length (stds h) \<and> set (ancestors (stds h ! a)) \<subseteq> set (ancestors c)
           \<and> (err (stds h ! a) \<noteq> None \<longrightarrow> err c \<noteq> None)"
  shows "wf_std (h\<lparr>stds := stds h @ [c]\<rparr>)"
  unfolding wf_std_def
proof (intro allI impI ballI)
  fix j a
  assume j: "j < length (stds (h\<lparr>stds := stds h @ [c]\<rparr>))"
    and a: "a \<in> set (ancestors (stds (h\<lparr>stds := stds h @ [c]\<rparr>) ! j))"
  show "a < j \<and> set (ancestors (stds (h\<lparr>stds := stds h @ [c]\<rparr>) ! a))
                 \<subseteq> set (ancestors (stds (h\<lparr>stds := stds h @ [c]\<rparr>) ! j))
        \<and> (err (stds (h\<lparr>stds := stds h @ [c]\<rparr>) ! a) \<noteq> None
             \<longrightarrow> err (stds (h\<lparr>stds := stds h @ [c]\<rparr>) ! j) \<noteq> None)"
  proof (cases "j < length (stds h)")
    case True
    with a have a': "a \<in> set (ancestors (stds h ! j))" by (simp add: nth_append)
    note D = wf_stdD [OF assms(1) True a']
    from D True show ?thesis by (simp add: nth_append)
  next
    case False
    with j have jl: "j = length (stds h)" by simp
    with a have "a \<in> set (ancestors c)" by simp
    from new [OF this] jl show ?thesis by (simp add: nth_append)
  qed
qed

lemma wf_ctx_append_std:
  assumes "wf_ctx h"
  shows "wf_ctx (h\<lparr>stds := stds h @ [c]\<rparr>)"
  unfolding wf_ctx_def
proof (intro allI impI)
  fix i assume "i < length (ctxs (h\<lparr>stds := stds h @ [c]\<rparr>))"
  then have i: "i < length (ctxs h)" by simp
  note D = wf_ctxD [OF assms i]
  have ch: "\<forall>x\<in>set (children (ctxs h ! i)).
             x < length (ctxs h)
             \<and> Context (ctxs h ! i) \<in> set (ancestors ((stds h @ [c]) ! Context (ctxs h ! x)))"
  proof
    fix x assume x: "x \<in> set (children (ctxs h ! i))"
    from D(4) [OF x] have xl: "x < length (ctxs h)"
      and anc: "Context (ctxs h ! i) \<in> set (ancestors (stds h ! Context (ctxs h ! x)))"
      by simp_all
    from wf_ctxD(1) [OF assms xl] anc xl
    show "x < length (ctxs h)
          \<and> Context (ctxs h ! i) \<in> set (ancestors ((stds h @ [c]) ! Context (ctxs h ! x)))"
      by (simp add: nth_append)
  qed
  have cn: "(case cancel (ctxs h ! i) of
             StdCancel k \<Rightarrow> k = Context (ctxs h ! i)
           | CancelWithPropagation k p \<Rightarrow> k = Context (ctxs h ! i) \<and> p < i)"
    using D(2,3) by (cases "cancel (ctxs h ! i)") simp_all
  from D(1) cn ch
  show "Context (ctxs (h\<lparr>stds := stds h @ [c]\<rparr>) ! i) < length (stds (h\<lparr>stds := stds h @ [c]\<rparr>))
        \<and> (case cancel (ctxs (h\<lparr>stds := stds h @ [c]\<rparr>) ! i) of
             StdCancel k \<Rightarrow> k = Context (ctxs (h\<lparr>stds := stds h @ [c]\<rparr>) ! i)
           | CancelWithPropagation k p \<Rightarrow> k = Context (ctxs (h\<lparr>stds := stds h @ [c]\<rparr>) ! i) \<and> p < i)
        \<and> (\<forall>x\<in>set (children (ctxs (h\<lparr>stds := stds h @ [c]\<rparr>) ! i)).
             x < length (ctxs (h\<lparr>stds := stds h @ [c]\<rparr>))
             \<and> Context (ctxs (h\<lparr>stds := stds h @ [c]\<rparr>) ! i)
                 \<in> set (ancestors (stds (h\<lparr>stds := stds h @ [c]\<rparr>) ! Context (ctxs (h\<lparr>stds := stds h @ [c]\<rparr>) ! x))))"
    by (simp cong: cancel_fn.case_cong)
qed

lemma WithCancel_eq:
  "fst (WithCancel h r) =
     h\<lparr>stds := stds h @ [case r of
                 Background \<Rightarrow> \<lparr>ancestors = [], timer = None, err = None\<rparr>
               | Std p \<Rightarrow> \<lparr>ancestors = p # ancestors (stds h ! p), timer = None,
                            err = err (stds h ! p)\<rparr>]\<rparr>"
  by (simp add: WithCancel_def split: std_ref.splits)

lemma wf_WithCancel:
  assumes "wf h" and r: "\<And>p. r = Std p \<Longrightarrow> p < length (stds h)"
  shows "wf (fst (WithCancel h r))"
proof -
  from assms(1) have s: "wf_std h" and c: "wf_ctx h" by (simp_all add: wf_def)
  have "wf_std (fst (WithCancel h r))"
    unfolding WithCancel_eq
  proof (rule wf_std_append [OF s])
    fix a
    assume a: "a \<in> set (ancestors (case r of
                 Background \<Rightarrow> \<lparr>ancestors = [], timer = None, err = None\<rparr>
               | Std p \<Rightarrow> \<lparr>ancestors = p # ancestors (stds h ! p), timer = None,
                            err = err (stds h ! p)\<rparr>))"
    show "a < length (stds h)
          \<and> set (ancestors (stds h ! a)) \<subseteq> set (ancestors (case r of
                 Background \<Rightarrow> \<lparr>ancestors = [], timer = None, err = None\<rparr>
               | Std p \<Rightarrow> \<lparr>ancestors = p # ancestors (stds h ! p), timer = None,
                            err = err (stds h ! p)\<rparr>))
          \<and> (err (stds h ! a) \<noteq> None \<longrightarrow> err (case r of
                 Background \<Rightarrow> \<lparr>ancestors = [], timer = None, err = None\<rparr>
               | Std p \<Rightarrow> \<lparr>ancestors = p # ancestors (stds h ! p), timer = None,
                            err = err (stds h ! p)\<rparr>) \<noteq> None)"
    proof (cases r)
      case Background
      with a show ?thesis by simp
    next
      case (Std p)
      from r [OF Std] have p: "p < length (stds h)" .
      show ?thesis
      proof (cases "a = p")
        case True
        with Std p show ?thesis by auto
      next
        case False
        with a Std have a': "a \<in> set (ancestors (stds h ! p))" by simp
        note D = wf_stdD [OF s p a']
        from D Std show ?thesis by auto
      qed
    qed
  qed
  moreover have "wf_ctx (fst (WithCancel h r))"
    unfolding WithCancel_eq by (rule wf_ctx_append_std [OF c])
  ultimately show ?thesis by (simp add: wf_def)
qed


lemma wf_ctxI:
  assumes "\<And>i. i < length (ctxs h) \<Longrightarrow> Context (ctxs h ! i) < length (stds h)"
    and "\<And>i k. i < length (ctxs h) \<Longrightarrow> cancel (ctxs h ! i) = StdCancel k
           \<Longrightarrow> k = Context (ctxs h ! i)"
    and "\<And>i k p. i < length (ctxs h) \<Longrightarrow> cancel (ctxs h ! i) = CancelWithPropagation k p
           \<Longrightarrow> k = Context (ctxs h ! i) \<and> p < i"
    and "\<And>i c. i < length (ctxs h) \<Longrightarrow> c \<in> set (children (ctxs h ! i))
           \<Longrightarrow> c < length (ctxs h)
               \<and> Context (ctxs h ! i) \<in> set (ancestors (stds h ! Context (ctxs h ! c)))"
  shows "wf_ctx h"
  unfolding wf_ctx_def
proof (intro allI impI conjI ballI)
  fix i assume i: "i < length (ctxs h)"
  show "Context (ctxs h ! i) < length (stds h)" using assms(1) [OF i] .
  show "case cancel (ctxs h ! i) of
          StdCancel k \<Rightarrow> k = Context (ctxs h ! i)
        | CancelWithPropagation k p \<Rightarrow> k = Context (ctxs h ! i) \<and> p < i"
    using assms(2) [OF i] assms(3) [OF i] by (cases "cancel (ctxs h ! i)") simp_all
  fix c assume c: "c \<in> set (children (ctxs h ! i))"
  show "c < length (ctxs h)" using assms(4) [OF i c] by simp
  show "Context (ctxs h ! i) \<in> set (ancestors (stds h ! Context (ctxs h ! c)))"
    using assms(4) [OF i c] by simp
qed

lemma wf_ctx_append_node:
  assumes "wf_ctx h" and "Context n < length (stds h)" and "children n = []"
    and "\<And>k. cancel n = StdCancel k \<Longrightarrow> k = Context n"
    and "\<And>k p. cancel n = CancelWithPropagation k p \<Longrightarrow> k = Context n \<and> p < length (ctxs h)"
  shows "wf_ctx (h\<lparr>ctxs := ctxs h @ [n]\<rparr>)"
proof (rule wf_ctxI)
  fix i assume "i < length (ctxs (h\<lparr>ctxs := ctxs h @ [n]\<rparr>))"
  then have i: "i < length (ctxs h) \<or> i = length (ctxs h)" by auto
  show "Context (ctxs (h\<lparr>ctxs := ctxs h @ [n]\<rparr>) ! i) < length (stds (h\<lparr>ctxs := ctxs h @ [n]\<rparr>))"
    using i assms(2) wf_ctxD(1) [OF assms(1)] by (auto simp add: nth_append)
  {
    fix k assume "cancel (ctxs (h\<lparr>ctxs := ctxs h @ [n]\<rparr>) ! i) = StdCancel k"
    then show "k = Context (ctxs (h\<lparr>ctxs := ctxs h @ [n]\<rparr>) ! i)"
      using i assms(4) wf_ctxD(2) [OF assms(1)] by (auto simp add: nth_append)
  }
  {
    fix k p assume "cancel (ctxs (h\<lparr>ctxs := ctxs h @ [n]\<rparr>) ! i) = CancelWithPropagation k p"
    then show "k = Context (ctxs (h\<lparr>ctxs := ctxs h @ [n]\<rparr>) ! i) \<and> p < i"
      using i assms(5) wf_ctxD(3) [OF assms(1)] by (auto simp add: nth_append)
  }
  {
    fix c assume c: "c \<in> set (children (ctxs (h\<lparr>ctxs := ctxs h @ [n]\<rparr>) ! i))"
    with i assms(3) have il: "i < length (ctxs h)" and c': "c \<in> set (children (ctxs h ! i))"
      by (auto simp add: nth_append)
    from wf_ctxD(4) [OF assms(1) il c']
    show "c < length (ctxs (h\<lparr>ctxs := ctxs h @ [n]\<rparr>))
          \<and> Context (ctxs (h\<lparr>ctxs := ctxs h @ [n]\<rparr>) ! i)
              \<in> set (ancestors (stds (h\<lparr>ctxs := ctxs h @ [n]\<rparr>)
                                   ! Context (ctxs (h\<lparr>ctxs := ctxs h @ [n]\<rparr>) ! c)))"
      using il by (simp add: nth_append)
  }
qed

lemma wf_ctx_add_child:
  assumes "wf_ctx h" and p: "p < length (ctxs h)" and c: "c < length (ctxs h)"
    and anc: "Context (ctxs h ! p) \<in> set (ancestors (stds h ! Context (ctxs h ! c)))"
  shows "wf_ctx (h\<lparr>ctxs := (ctxs h)[p := (ctxs h ! p)\<lparr>children := children (ctxs h ! p) @ [c]\<rparr>]\<rparr>)"
    (is "wf_ctx ?h'")
proof -
  have C: "\<And>i. i < length (ctxs h) \<Longrightarrow> Context (ctxs ?h' ! i) = Context (ctxs h ! i)"
    using p by (auto simp add: nth_list_update)
  have K: "\<And>i. i < length (ctxs h) \<Longrightarrow> cancel (ctxs ?h' ! i) = cancel (ctxs h ! i)"
    using p by (auto simp add: nth_list_update)
  have CH: "\<And>i. i < length (ctxs h) \<Longrightarrow>
              set (children (ctxs ?h' ! i)) \<subseteq> set (children (ctxs h ! i)) \<union> (if i = p then {c} else {})"
    using p by (auto simp add: nth_list_update)
  show ?thesis
  proof (rule wf_ctxI)
    fix i assume "i < length (ctxs ?h')"
    then have i: "i < length (ctxs h)" by simp
    show "Context (ctxs ?h' ! i) < length (stds ?h')"
      using wf_ctxD(1) [OF assms(1) i] C [OF i] by simp
    {
      fix k assume "cancel (ctxs ?h' ! i) = StdCancel k"
      then have "cancel (ctxs h ! i) = StdCancel k" using K [OF i] by simp
      from wf_ctxD(2) [OF assms(1) i this] show "k = Context (ctxs ?h' ! i)"
        using C [OF i] by simp
    }
    {
      fix k q assume "cancel (ctxs ?h' ! i) = CancelWithPropagation k q"
      then have "cancel (ctxs h ! i) = CancelWithPropagation k q" using K [OF i] by simp
      from wf_ctxD(3) [OF assms(1) i this] show "k = Context (ctxs ?h' ! i) \<and> q < i"
        using C [OF i] by simp
    }
    {
      fix x assume x: "x \<in> set (children (ctxs ?h' ! i))"
      have "x < length (ctxs h)
            \<and> Context (ctxs h ! i) \<in> set (ancestors (stds h ! Context (ctxs h ! x)))"
      proof (cases "x \<in> set (children (ctxs h ! i))")
        case True
        then show ?thesis using wf_ctxD(4) [OF assms(1) i] by simp
      next
        case False
        with x CH [OF i] have "i = p" "x = c" by (auto split: if_splits)
        then show ?thesis using c anc by simp
      qed
      then show "x < length (ctxs ?h')
            \<and> Context (ctxs ?h' ! i) \<in> set (ancestors (stds ?h' ! Context (ctxs ?h' ! x)))"
        using C [OF i] C [of x] by simp
    }
  qed
qed

lemma wf_std_ctxs_irrelevant: "wf_std (h\<lparr>ctxs := cs\<rparr>) = wf_std h"
  by (simp add: wf_std_def)

lemma FromStdContext_eq:
  "FromStdContext h r =
     ((fst (WithCancel h r))\<lparr>ctxs := ctxs h @ [\<lparr>Context = length (stds h),
          cancel = StdCancel (length (stds h)), children = [], config = DefaultConfig\<rparr>]\<rparr>,
      length (ctxs h))"
  by (simp add: FromStdContext_def Let_def split_beta)

lemma wf_FromStdContext:
  assumes "wf h" and r: "\<And>p. r = Std p \<Longrightarrow> p < length (stds h)"
  shows "wf (fst (FromStdContext h r))"
proof -
  from wf_WithCancel [OF assms] have w: "wf_std (fst (WithCancel h r))" "wf_ctx (fst (WithCancel h r))"
    by (simp_all add: wf_def)
  have "wf_ctx ((fst (WithCancel h r))\<lparr>ctxs := ctxs (fst (WithCancel h r)) @ [\<lparr>Context = length (stds h),
          cancel = StdCancel (length (stds h)), children = [], config = DefaultConfig\<rparr>]\<rparr>)"
    by (rule wf_ctx_append_node [OF w(2)]) (simp_all add: WithCancel_stds)
  with w(1) show ?thesis
    by (simp add: FromStdContext_eq wf_def wf_std_ctxs_irrelevant)
qed

lemma wf_context_New: "wf h \<Longrightarrow> wf (fst (context_New h))"
  unfolding context_New_def by (rule wf_FromStdContext) simp_all


lemma NewChild_snd [simp]: "snd (context_NewChild h p) = length (ctxs h)"
  by (simp add: context_NewChild_def Let_def split_beta)

lemma NewChild_stds:
  "stds (fst (context_NewChild h p)) =
     stds h @ [\<lparr>ancestors = Context (ctxs h ! p) # ancestors (stds h ! Context (ctxs h ! p)),
                timer = None, err = err (stds h ! Context (ctxs h ! p))\<rparr>]"
  by (simp add: context_NewChild_def Let_def split_beta WithCancel_stds)

lemma NewChild_now [simp]: "now (fst (context_NewChild h p)) = now h"
  by (simp add: context_NewChild_def Let_def split_beta)

lemma NewChild_ctxs:
  "p < length (ctxs h) \<Longrightarrow>
   ctxs (fst (context_NewChild h p)) =
     (ctxs h)[p := (ctxs h ! p)\<lparr>children := children (ctxs h ! p) @ [length (ctxs h)]\<rparr>]
     @ [\<lparr>Context = length (stds h), cancel = CancelWithPropagation (length (stds h)) p,
         children = [], config = config (ctxs h ! p)\<rparr>]"
  by (simp add: context_NewChild_def Let_def split_beta nth_append list_update_append)

lemma NewChild_length [simp]:
  "length (ctxs (fst (context_NewChild h p))) = Suc (length (ctxs h))"
  "length (stds (fst (context_NewChild h p))) = Suc (length (stds h))"
  by (simp_all add: context_NewChild_def Let_def split_beta WithCancel_stds)

lemma NewChild_child_node:
  "p < length (ctxs h) \<Longrightarrow>
   ctxs (fst (context_NewChild h p)) ! length (ctxs h) =
     \<lparr>Context = length (stds h), cancel = CancelWithPropagation (length (stds h)) p,
      children = [], config = config (ctxs h ! p)\<rparr>"
  by (simp add: NewChild_ctxs nth_append)

lemma NewChild_old_node:
  "p < length (ctxs h) \<Longrightarrow> i < length (ctxs h) \<Longrightarrow>
   ctxs (fst (context_NewChild h p)) ! i =
     (if i = p then (ctxs h ! p)\<lparr>children := children (ctxs h ! p) @ [length (ctxs h)]\<rparr>
      else ctxs h ! i)"
  by (simp add: NewChild_ctxs nth_append nth_list_update)

lemma NewChild_old_std:
  "k < length (stds h) \<Longrightarrow> stds (fst (context_NewChild h p)) ! k = stds h ! k"
  by (simp add: NewChild_stds nth_append)

lemma NewChild_new_std:
  "stds (fst (context_NewChild h p)) ! length (stds h) =
     \<lparr>ancestors = Context (ctxs h ! p) # ancestors (stds h ! Context (ctxs h ! p)),
      timer = None, err = err (stds h ! Context (ctxs h ! p))\<rparr>"
  by (simp add: NewChild_stds nth_append)

lemma wf_NewChild:
  assumes "wf h" and p: "p < length (ctxs h)"
  shows "wf (fst (context_NewChild h p))"
proof -
  let ?P = "Context (ctxs h ! p)"
  let ?h1 = "fst (WithCancel h (Std ?P))"
  let ?n = "\<lparr>Context = length (stds h), cancel = CancelWithPropagation (length (stds h)) p,
             children = [], config = config (ctxs h ! p)\<rparr>"
  let ?h2 = "?h1\<lparr>ctxs := ctxs ?h1 @ [?n]\<rparr>"
  let ?h3 = "?h2\<lparr>ctxs := (ctxs ?h2)[p := (ctxs ?h2 ! p)
                                   \<lparr>children := children (ctxs ?h2 ! p) @ [length (ctxs h)]\<rparr>]\<rparr>"
  from assms(1) have c: "wf_ctx h" by (simp add: wf_def)
  have P: "?P < length (stds h)" using wf_ctxD(1) [OF c p] .
  have "wf ?h1" by (rule wf_WithCancel [OF assms(1)]) (simp add: P)
  then have w1: "wf_std ?h1" "wf_ctx ?h1" by (simp_all add: wf_def)
  have w2: "wf_ctx ?h2"
    by (rule wf_ctx_append_node [OF w1(2)]) (simp_all add: WithCancel_stds p)
  have w3: "wf_ctx ?h3"
    using p by (intro wf_ctx_add_child [OF w2]) (simp_all add: nth_append WithCancel_stds)
  have "fst (context_NewChild h p) = ?h3"
    using p by (simp add: context_NewChild_def Let_def split_beta nth_append)
  with w1(1) w3 show ?thesis by (simp add: wf_def wf_std_ctxs_irrelevant)
qed

lemma context_Done_cancel_self:
  "wf h \<Longrightarrow> i < length (ctxs h) \<Longrightarrow>
   context_Done (cancel_std h (Context (ctxs h ! i)) e) i"
  by (simp add: context_Done_def std_Done_def cancel_std_self wf_ctxD(1) wf_def)

lemma open_child_open_parent:
  assumes "wf h" and i: "i < length (ctxs h)" and c: "c \<in> set (children (ctxs h ! i))"
    and o: "\<not> context_Done h c"
  shows "\<not> context_Done h i"
proof -
  from assms(1) have ws: "wf_std h" and wc: "wf_ctx h" by (simp_all add: wf_def)
  from wf_ctxD(4) [OF wc i c] have cl: "c < length (ctxs h)"
    and anc: "Context (ctxs h ! i) \<in> set (ancestors (stds h ! Context (ctxs h ! c)))"
    by simp_all
  have "err (stds h ! Context (ctxs h ! i)) \<noteq> None
          \<Longrightarrow> err (stds h ! Context (ctxs h ! c)) \<noteq> None"
    by (rule wf_stdD(4) [OF ws wf_ctxD(1) [OF wc cl] anc])
  with o show ?thesis unfolding context_Done_def std_Done_def by blast
qed

lemma Close_open_child:
  assumes "\<exists>c\<in>set (children (ctxs h ! i)). \<not> context_Done h c"
  shows "context_Close h i = Some h"
proof -
  from assms have "\<not> children_done h (children (ctxs h ! i))"
    by (simp add: children_done_iff)
  then show ?thesis by (subst context_Close.simps) simp
qed

lemma Close_all_done:
  assumes "wf h" and i: "i < length (ctxs h)"
    and d: "\<forall>c\<in>set (children (ctxs h ! i)). context_Done h c"
  shows "\<exists>h'. context_Close h i = Some h' \<and> context_Done h' i \<and> wf h' \<and> ctxs h' = ctxs h"
proof -
  from assms(1) have wc: "wf_ctx h" by (simp add: wf_def)
  let ?k = "Context (ctxs h ! i)"
  let ?g = "cancel_std h ?k Canceled"
  have k: "?k < length (stds h)" using wf_ctxD(1) [OF wc i] .
  have dg: "err (stds ?g ! ?k) \<noteq> None" using k by (rule cancel_std_self)
  show ?thesis
  proof (cases "cancel (ctxs h ! i)")
    case (StdCancel k')
    from wf_ctxD(2) [OF wc i StdCancel] have "k' = ?k" .
    with StdCancel d have "context_Close h i = Some ?g"
      by (subst context_Close.simps) (simp add: children_done_iff)
    with dg assms(1) show ?thesis
      by (simp add: context_Done_def std_Done_def wf_cancel_std)
  next
    case (CancelWithPropagation k' p)
    from wf_ctxD(3) [OF wc i CancelWithPropagation] have k': "k' = ?k" and pi: "p < i" by simp_all
    with CancelWithPropagation d have eq: "context_Close h i = context_Close ?g p"
      by (subst context_Close.simps) (simp add: children_done_iff)
    have "wf ?g" using assms(1) by (rule wf_cancel_std)
    moreover have "p < length (ctxs ?g)" using pi i by simp
    ultimately obtain h' where h': "context_Close ?g p = Some h'" "wf h'" "ctxs h' = ctxs ?g"
      "\<forall>j<length (stds ?g). err (stds ?g ! j) \<noteq> None \<longrightarrow> err (stds h' ! j) = err (stds ?g ! j)"
      using context_Close_total [of ?g p] by blast
    from h'(4) dg k have "err (stds h' ! ?k) \<noteq> None" by simp
    with eq h' show ?thesis by (simp add: context_Done_def std_Done_def)
  qed
qed

lemma root_with_child_eq:
  "root_with_child =
     \<lparr>now = 0,
      stds = [\<lparr>ancestors = [], timer = None, err = None\<rparr>,
              \<lparr>ancestors = [0], timer = None, err = None\<rparr>],
      ctxs = [\<lparr>Context = 0, cancel = StdCancel 0, children = [1], config = DefaultConfig\<rparr>,
              \<lparr>Context = 1, cancel = CancelWithPropagation 1 0, children = [],
               config = DefaultConfig\<rparr>]\<rparr>"
  by (simp add: root_with_child_def context_NewChild_def context_New_def FromStdContext_def
      WithCancel_def empty_heap_def Let_def)

lemma wf_root_with_child: "wf root_with_child"
  unfolding root_with_child_def
  by (intro wf_NewChild wf_context_New wf_empty)
     (simp add: context_New_def FromStdContext_eq)

subsection \<open>Deadlines handed in by a caller\<close>

lemma WithDeadline_eq:
  "fst (WithDeadline h r d) =
     h\<lparr>stds := stds h @ [case r of
                 Background \<Rightarrow> \<lparr>ancestors = [], timer = Some d,
                                err = (if d \<le> now h then Some DeadlineExceeded else None)\<rparr>
               | Std p \<Rightarrow> \<lparr>ancestors = p # ancestors (stds h ! p), timer = Some d,
                            err = (case err (stds h ! p) of Some e \<Rightarrow> Some e
                                   | None \<Rightarrow> if d \<le> now h then Some DeadlineExceeded else None)\<rparr>]\<rparr>"
  by (simp add: WithDeadline_def Let_def split: std_ref.splits)

lemma wf_WithDeadline:
  assumes "wf h" and r: "\<And>p. r = Std p \<Longrightarrow> p < length (stds h)"
  shows "wf (fst (WithDeadline h r d))"
proof -
  from assms(1) have s: "wf_std h" and c: "wf_ctx h" by (simp_all add: wf_def)
  let ?new = "case r of
                 Background \<Rightarrow> \<lparr>ancestors = [], timer = Some d,
                                err = (if d \<le> now h then Some DeadlineExceeded else None)\<rparr>
               | Std p \<Rightarrow> \<lparr>ancestors = p # ancestors (stds h ! p), timer = Some d,
                            err = (case err (stds h ! p) of Some e \<Rightarrow> Some e
                                   | None \<Rightarrow> if d \<le> now h then Some DeadlineExceeded else None)\<rparr>"
  have "wf_std (h\<lparr>stds := stds h @ [?new]\<rparr>)"
  proof (rule wf_std_append [OF s])
    fix a
    assume a: "a \<in> set (ancestors ?new)"
    show "a < length (stds h) \<and> set (ancestors (stds h ! a)) \<subseteq> set (ancestors ?new)
          \<and> (err (stds h ! a) \<noteq> None \<longrightarrow> err ?new \<noteq> None)"
    proof (cases r)
      case Background
      with a show ?thesis by simp
    next
      case (Std p)
      from r [OF Std] have p: "p < length (stds h)" .
      show ?thesis
      proof (cases "a = p")
        case True
        with Std p show ?thesis by (auto split: option.splits)
      next
        case False
        with a Std have a': "a \<in> set (ancestors (stds h ! p))" by simp
        note D = wf_stdD [OF s p a']
        from D Std show ?thesis
          by (cases "err (stds h ! a)"; cases "err (stds h ! p)") auto
      qed
    qed
  qed
  moreover have "wf_ctx (h\<lparr>stds := stds h @ [?new]\<rparr>)"
    by (rule wf_ctx_append_std [OF c])
  ultimately show ?thesis by (simp add: wf_def WithDeadline_eq)
qed

lemma wf_fire: "wf h \<Longrightarrow> wf (fire k h)"
  by (simp add: fire_def wf_cancel_std split: option.splits)

lemma wf_fold_fire: "wf h \<Longrightarrow> wf (fold fire ks h)"
  by (induction ks arbitrary: h) (simp_all add: wf_fire)

lemma wf_now: "wf (h\<lparr>now := t\<rparr>) = wf h"
  by (simp add: wf_def wf_std_def wf_ctx_def cong: cancel_fn.case_cong)

lemma wf_elapse: "wf h \<Longrightarrow> wf (elapse h d)"
  by (simp add: elapse_def wf_fold_fire wf_now)

section \<open>Context.Close\<close>

text \<open>
  C2. \<^verbatim>\<open>Close\<close> is gated on the node's current children. If some child is not done,
  \<^verbatim>\<open>Close\<close> returns without changing anything and the node is still open. If every
  child is done, and so too when there are none, \<^verbatim>\<open>Close\<close> returns and the node is done.
\<close>

theorem Close_gated_on_children:
  assumes "wf h" and "ctx < length (ctxs h)"
  shows "((\<exists>c\<in>set (children (ctxs h ! ctx)). \<not> context_Done h c)
            \<longrightarrow> context_Close h ctx = Some h \<and> \<not> context_Done h ctx)
       \<and> ((\<forall>c\<in>set (children (ctxs h ! ctx)). context_Done h c)
            \<longrightarrow> (\<exists>h'. context_Close h ctx = Some h' \<and> context_Done h' ctx))"
proof (intro conjI impI)
  assume o: "\<exists>c\<in>set (children (ctxs h ! ctx)). \<not> context_Done h c"
  then show "context_Close h ctx = Some h" by (rule Close_open_child)
  from o obtain c where "c \<in> set (children (ctxs h ! ctx))" "\<not> context_Done h c" by blast
  then show "\<not> context_Done h ctx" by (rule open_child_open_parent [OF assms])
next
  assume "\<forall>c\<in>set (children (ctxs h ! ctx)). context_Done h c"
  from Close_all_done [OF assms this]
  show "\<exists>h'. context_Close h ctx = Some h' \<and> context_Done h' ctx" by blast
qed

theorem Close_gated_on_children_witness:
  "wf root_with_child \<and> 0 < length (ctxs root_with_child) \<and> 1 < length (ctxs root_with_child)
   \<and> (\<exists>c\<in>set (children (ctxs root_with_child ! 0)). \<not> context_Done root_with_child c)
   \<and> context_Close root_with_child 0 = Some root_with_child
   \<and> \<not> context_Done root_with_child 0
   \<and> children (ctxs root_with_child ! 1) = []
   \<and> (\<exists>h'. context_Close root_with_child 1 = Some h' \<and> context_Done h' 1)"
proof -
  have l: "0 < length (ctxs root_with_child)" "1 < length (ctxs root_with_child)"
    by (simp_all add: root_with_child_eq)
  have o: "\<exists>c\<in>set (children (ctxs root_with_child ! 0)). \<not> context_Done root_with_child c"
    by (simp add: root_with_child_eq context_Done_def std_Done_def)
  have k: "children (ctxs root_with_child ! 1) = []"
    by (simp add: root_with_child_eq)
  then have d: "\<forall>c\<in>set (children (ctxs root_with_child ! 1)). context_Done root_with_child c"
    by simp
  from Close_gated_on_children [OF wf_root_with_child l(1)]
       Close_gated_on_children [OF wf_root_with_child l(2)] wf_root_with_child l o k d
  show ?thesis by blast
qed

section \<open>Context.NewChild\<close>

lemma cancel_std_other:
  "j < length (stds h) \<Longrightarrow> j \<noteq> k \<Longrightarrow> k \<notin> set (ancestors (stds h ! j)) \<Longrightarrow>
   stds (cancel_std h k e) ! j = stds h ! j"
  by (simp add: nth_cancel_std)

lemma cancel_std_last:
  assumes "wf_std h" and j: "j < length (stds h)" and k: "length (stds h) \<le> Suc k" and jk: "j \<noteq> k"
  shows "stds (cancel_std h k e) ! j = stds h ! j"
proof (rule cancel_std_other [OF j jk])
  show "k \<notin> set (ancestors (stds h ! j))"
  proof
    assume "k \<in> set (ancestors (stds h ! j))"
    from wf_stdD(1) [OF assms(1) j this] j k jk show False by simp
  qed
qed

lemma Close_fresh_child:
  assumes "wf h" and p: "parent < length (ctxs h)"
  shows "\<exists>h''. context_Close (fst (context_NewChild h parent)) (length (ctxs h)) = Some h''
           \<and> context_Done h'' (length (ctxs h))
           \<and> (context_Done h'' parent \<longleftrightarrow>
                (\<forall>c\<in>set (children (ctxs h ! parent)).
                   context_Done (fst (context_NewChild h parent)) c))"
proof -
  let ?h' = "fst (context_NewChild h parent)"
  let ?child = "length (ctxs h)"
  let ?k = "length (stds h)"
  let ?g = "cancel_std ?h' ?k Canceled"
  have w': "wf ?h'" using assms by (rule wf_NewChild)
  then have ws': "wf_std ?h'" and wc': "wf_ctx ?h'" by (simp_all add: wf_def)
  from assms(1) have wc: "wf_ctx h" by (simp add: wf_def)
  have node: "ctxs ?h' ! ?child =
     \<lparr>Context = ?k, cancel = CancelWithPropagation ?k parent,
      children = [], config = config (ctxs h ! parent)\<rparr>"
    using p by (rule NewChild_child_node)
  have eq: "context_Close ?h' ?child = context_Close ?g parent"
    by (subst context_Close.simps) (simp add: node)
  have wg: "wf ?g" using w' by (rule wf_cancel_std)
  have pg: "parent < length (ctxs ?g)" using p by simp
  have child_done: "context_Done ?g ?child"
    using context_Done_cancel_self [OF w', of ?child Canceled] by (simp add: node)
  have old: "context_Done ?g c = context_Done ?h' c" if c: "c < length (ctxs h)" for c
  proof -
    have C: "Context (ctxs ?h' ! c) = Context (ctxs h ! c)"
      using p c by (simp add: NewChild_old_node)
    have lt: "Context (ctxs h ! c) < ?k" using wf_ctxD(1) [OF wc c] .
    have "stds ?g ! Context (ctxs h ! c) = stds ?h' ! Context (ctxs h ! c)"
      by (rule cancel_std_last [OF ws']) (use lt in simp_all)
    then show ?thesis by (simp add: context_Done_def std_Done_def C)
  qed
  have kids: "children (ctxs ?h' ! parent) = children (ctxs h ! parent) @ [?child]"
    using p by (simp add: NewChild_old_node)
  have oldkids: "c < length (ctxs h)" if "c \<in> set (children (ctxs h ! parent))" for c
    using wf_ctxD(4) [OF wc p that] by simp
  show ?thesis
  proof (cases "\<forall>c\<in>set (children (ctxs h ! parent)). context_Done ?h' c")
    case True
    then have "\<forall>c\<in>set (children (ctxs ?g ! parent)). context_Done ?g c"
      using kids child_done old oldkids by auto
    from Close_all_done [OF wg pg this] obtain h'' where
      h'': "context_Close ?g parent = Some h''" "context_Done h'' parent" "ctxs h'' = ctxs ?g"
      by blast
    from context_Close_total [OF wg pg] h''(1)
    have keep: "\<forall>j<length (stds ?g). err (stds ?g ! j) \<noteq> None
                  \<longrightarrow> err (stds h'' ! j) = err (stds ?g ! j)"
      by auto
    have "err (stds ?g ! ?k) \<noteq> None"
      using child_done by (simp add: context_Done_def std_Done_def node)
    with keep have "err (stds h'' ! ?k) \<noteq> None" by simp
    then have "context_Done h'' ?child"
      by (simp add: context_Done_def std_Done_def h''(3) node)
    with eq h'' True show ?thesis by simp
  next
    case False
    then obtain c where c: "c \<in> set (children (ctxs h ! parent))" "\<not> context_Done ?h' c"
      by blast
    then have cg: "c \<in> set (children (ctxs ?g ! parent))" "\<not> context_Done ?g c"
      using kids old oldkids by auto
    then have "context_Close ?g parent = Some ?g"
      by (intro Close_open_child) blast
    moreover have "\<not> context_Done ?g parent"
      using cg by (rule open_child_open_parent [OF wg pg])
    ultimately show ?thesis using eq child_done False by simp
  qed
qed

text \<open>
  C6. The node made by \<^verbatim>\<open>NewChild\<close> carries the parent's configuration and is appended
  to the parent's children. Its \<^verbatim>\<open>cancel\<close> does two things in this order: it cancels the
  child's own standard context, then it calls \<^verbatim>\<open>Close\<close> on the parent. So closing the
  fresh child returns with the child done, and the parent is done afterwards exactly when
  all its other children are done.
\<close>

theorem NewChild_contract:
  assumes "wf h" and "parent < length (ctxs h)"
    and "context_NewChild h parent = (h', child)"
  shows "context_Config h' child = context_Config h parent
       \<and> children (ctxs h' ! parent) = children (ctxs h ! parent) @ [child]
       \<and> (\<forall>g. call_cancel g (cancel (ctxs h' ! child))
                = context_Close (cancel_std g (Context (ctxs h' ! child)) Canceled) parent)
       \<and> (\<exists>h''. context_Close h' child = Some h'' \<and> context_Done h'' child
                \<and> (context_Done h'' parent \<longleftrightarrow>
                     (\<forall>c\<in>set (children (ctxs h ! parent)). context_Done h' c)))"
proof -
  from assms(3) have h': "h' = fst (context_NewChild h parent)" and c: "child = length (ctxs h)"
    by (simp_all add: prod_eq_iff)
  have node: "ctxs h' ! child =
     \<lparr>Context = length (stds h), cancel = CancelWithPropagation (length (stds h)) parent,
      children = [], config = config (ctxs h ! parent)\<rparr>"
    unfolding h' c using assms(2) by (rule NewChild_child_node)
  have "context_Config h' child = context_Config h parent"
    by (simp add: context_Config_def node)
  moreover have "children (ctxs h' ! parent) = children (ctxs h ! parent) @ [child]"
    unfolding h' c using assms(2) by (simp add: NewChild_old_node)
  moreover have "\<forall>g. call_cancel g (cancel (ctxs h' ! child))
                = context_Close (cancel_std g (Context (ctxs h' ! child)) Canceled) parent"
    by (simp add: call_cancel_def node)
  moreover have "\<exists>h''. context_Close h' child = Some h'' \<and> context_Done h'' child
                \<and> (context_Done h'' parent \<longleftrightarrow>
                     (\<forall>c\<in>set (children (ctxs h ! parent)). context_Done h' c))"
    unfolding h' c using assms(1,2) by (rule Close_fresh_child)
  ultimately show ?thesis by blast
qed

theorem NewChild_contract_witness:
  "wf (fst (context_New empty_heap)) \<and> 0 < length (ctxs (fst (context_New empty_heap)))
   \<and> context_NewChild (fst (context_New empty_heap)) 0 = (root_with_child, 1)
   \<and> context_Config root_with_child 1 = context_Config (fst (context_New empty_heap)) 0
   \<and> children (ctxs root_with_child ! 0) = [1]
   \<and> (\<exists>h''. context_Close root_with_child 1 = Some h'' \<and> context_Done h'' 1
            \<and> context_Done h'' 0)"
proof -
  have w: "wf (fst (context_New empty_heap))" by (rule wf_context_New [OF wf_empty])
  have l: "0 < length (ctxs (fst (context_New empty_heap)))"
    by (simp add: context_New_def FromStdContext_eq)
  have e: "context_NewChild (fst (context_New empty_heap)) 0 = (root_with_child, 1)"
    by (simp add: prod_eq_iff root_with_child_def context_New_def FromStdContext_eq empty_heap_def)
  have k: "children (ctxs (fst (context_New empty_heap)) ! 0) = []"
    by (simp add: context_New_def FromStdContext_eq empty_heap_def)
  from NewChild_contract [OF w l e] w l e k show ?thesis by simp
qed

section \<open>Cancelling the standard context under a tree\<close>

lemma descendant_ancestry:
  assumes "wf h" and n: "n < length (ctxs h)" and d: "descendant h n d"
  shows "d < length (ctxs h)
         \<and> (d = n \<or> Context (ctxs h ! n) \<in> set (ancestors (stds h ! Context (ctxs h ! d))))"
  using d
proof (induction rule: descendant.induct)
  case self
  show ?case using n by simp
next
  case (child m c)
  from assms(1) have ws: "wf_std h" and wc: "wf_ctx h" by (simp_all add: wf_def)
  from child.IH have m: "m < length (ctxs h)" by simp
  from wf_ctxD(4) [OF wc m child.hyps(2)] have c: "c < length (ctxs h)"
    and anc: "Context (ctxs h ! m) \<in> set (ancestors (stds h ! Context (ctxs h ! c)))"
    by simp_all
  have "Context (ctxs h ! n) \<in> set (ancestors (stds h ! Context (ctxs h ! c)))"
  proof (cases "m = n")
    case True
    with anc show ?thesis by simp
  next
    case False
    with child.IH have "Context (ctxs h ! n) \<in> set (ancestors (stds h ! Context (ctxs h ! m)))"
      by simp
    with wf_stdD(3) [OF ws wf_ctxD(1) [OF wc c] anc] show ?thesis by blast
  qed
  with c show ?case by simp
qed

lemma cancellable_chain_eq:
  "cancellable_chain =
     \<lparr>now = 0,
      stds = [\<lparr>ancestors = [], timer = None, err = None\<rparr>,
              \<lparr>ancestors = [0], timer = None, err = None\<rparr>,
              \<lparr>ancestors = [1, 0], timer = None, err = None\<rparr>,
              \<lparr>ancestors = [2, 1, 0], timer = None, err = None\<rparr>],
      ctxs = [\<lparr>Context = 1, cancel = StdCancel 1, children = [1], config = DefaultConfig\<rparr>,
              \<lparr>Context = 2, cancel = CancelWithPropagation 2 0, children = [2],
               config = DefaultConfig\<rparr>,
              \<lparr>Context = 3, cancel = CancelWithPropagation 3 1, children = [],
               config = DefaultConfig\<rparr>]\<rparr>"
  by (simp add: cancellable_chain_def context_NewChild_def FromStdContext_def
      WithCancel_def empty_heap_def Let_def)

lemma wf_cancellable_chain: "wf cancellable_chain"
proof -
  have 0: "wf (fst (WithCancel empty_heap Background))"
    by (rule wf_WithCancel [OF wf_empty]) simp
  have 1: "wf (fst (FromStdContext (fst (WithCancel empty_heap Background)) (Std 0)))"
    by (rule wf_FromStdContext [OF 0]) (simp add: WithCancel_stds)
  have 2: "wf (fst (context_NewChild
                  (fst (FromStdContext (fst (WithCancel empty_heap Background)) (Std 0))) 0))"
    by (rule wf_NewChild [OF 1]) (simp add: FromStdContext_eq)
  show ?thesis unfolding cancellable_chain_def
    by (rule wf_NewChild [OF 2]) (simp add: FromStdContext_eq)
qed

text \<open>
  C9. The standard context of a child is derived from the parent's. Cancelling the
  standard context of a node, or any standard context that one was derived from (such as
  the one handed to \<^verbatim>\<open>FromStdContext\<close>), makes every node below it done at once, with no
  regard to open children: the check of \<^verbatim>\<open>Close\<close> on the children is not consulted.
\<close>

theorem std_cancel_closes_descendants:
  assumes "wf h" and "n < length (ctxs h)" and "descendant h n d"
    and "a = Context (ctxs h ! n) \<or> a \<in> set (ancestors (stds h ! Context (ctxs h ! n)))"
  shows "context_Done (cancel_std h a e) d"
proof -
  from assms(1) have ws: "wf_std h" and wc: "wf_ctx h" by (simp_all add: wf_def)
  from descendant_ancestry [OF assms(1-3)] have d: "d < length (ctxs h)"
    and dn: "d = n \<or> Context (ctxs h ! n) \<in> set (ancestors (stds h ! Context (ctxs h ! d)))"
    by simp_all
  have D: "Context (ctxs h ! d) < length (stds h)" using wf_ctxD(1) [OF wc d] .
  have N: "Context (ctxs h ! n) < length (stds h)" using wf_ctxD(1) [OF wc assms(2)] .
  have "a = Context (ctxs h ! d) \<or> a \<in> set (ancestors (stds h ! Context (ctxs h ! d)))"
  proof (cases "d = n")
    case True
    with assms(4) show ?thesis by simp
  next
    case False
    with dn have nd: "Context (ctxs h ! n) \<in> set (ancestors (stds h ! Context (ctxs h ! d)))"
      by simp
    from wf_stdD(3) [OF ws D nd] assms(4) nd show ?thesis by blast
  qed
  then have "err (stds (cancel_std h a e) ! Context (ctxs h ! d)) \<noteq> None"
  proof
    assume "a = Context (ctxs h ! d)"
    then show ?thesis using cancel_std_self [OF D] by simp
  next
    assume "a \<in> set (ancestors (stds h ! Context (ctxs h ! d)))"
    then show ?thesis by (rule cancel_std_descendant [OF ws D])
  qed
  then show ?thesis by (simp add: context_Done_def std_Done_def)
qed

theorem std_cancel_closes_descendants_witness:
  "wf cancellable_chain \<and> 0 < length (ctxs cancellable_chain)
   \<and> descendant cancellable_chain 0 1
   \<and> 0 \<in> set (ancestors (stds cancellable_chain ! Context (ctxs cancellable_chain ! 0)))
   \<and> \<not> context_Done cancellable_chain 2
   \<and> context_Close cancellable_chain 1 = Some cancellable_chain
   \<and> \<not> context_Done cancellable_chain 1
   \<and> context_Done (cancel_std cancellable_chain 0 Canceled) 1"
proof -
  have l: "0 < length (ctxs cancellable_chain)" by (simp add: cancellable_chain_eq)
  have "1 \<in> set (children (ctxs cancellable_chain ! 0))" by (simp add: cancellable_chain_eq)
  with descendant.self [of cancellable_chain 0] have d: "descendant cancellable_chain 0 1"
    by (rule descendant.child)
  have a: "0 \<in> set (ancestors (stds cancellable_chain ! Context (ctxs cancellable_chain ! 0)))"
    by (simp add: cancellable_chain_eq)
  have o: "\<not> context_Done cancellable_chain 2" "\<not> context_Done cancellable_chain 1"
    by (simp_all add: cancellable_chain_eq context_Done_def std_Done_def)
  have "2 \<in> set (children (ctxs cancellable_chain ! 1))" by (simp add: cancellable_chain_eq)
  with o(1) have c: "context_Close cancellable_chain 1 = Some cancellable_chain"
    by (intro Close_open_child) blast
  from std_cancel_closes_descendants [OF wf_cancellable_chain l d disjI2, OF a, of Canceled]
       wf_cancellable_chain l d a o c
  show ?thesis by simp
qed

section \<open>Writing to and receiving from a stream\<close>

lemma inner_select_choice:
  "\<not> context_Done (tree s) (writer_ctx w) \<Longrightarrow>
   inner_select s w x p = inner_select s w x True"
  by (simp add: inner_select_def)

lemma inner_select_blocks:
  assumes "\<not> context_Done (tree s) (writer_ctx w)"
    and "\<not> chan_closed (chans s ! writer_ch w)"
    and "chan_cap (chans s ! writer_ch w) \<le> length (chan_buf (chans s ! writer_ch w))"
  shows "inner_select s w x p = Blocks"
  using assms by (simp add: inner_select_def send_ready_def)

lemma inner_select_full_done:
  assumes "context_Done (tree s) (writer_ctx w)"
    and "\<not> chan_closed (chans s ! writer_ch w)"
    and "chan_cap (chans s ! writer_ch w) \<le> length (chan_buf (chans s ! writer_ch w))"
  shows "inner_select s w x p = Returns (ctxtree_Err s (writer_ctx w), s)"
  using assms by (simp add: inner_select_def send_ready_def)

lemma inner_select_done_not_chosen:
  assumes "context_Done (tree s) (writer_ctx w)"
  shows "inner_select s w x False = Returns (ctxtree_Err s (writer_ctx w), s)"
  using assms by (simp add: inner_select_def)

lemma inner_select_done_send_chosen:
  assumes "\<not> chan_closed (chans s ! writer_ch w)"
    and "length (chan_buf (chans s ! writer_ch w)) < chan_cap (chans s ! writer_ch w)"
  shows "inner_select s w x True =
           Returns (None, s\<lparr>chans := (chans s)[writer_ch w :=
                      (chans s ! writer_ch w)\<lparr>chan_buf := chan_buf (chans s ! writer_ch w) @ [x]\<rparr>]\<rparr>)"
  using assms by (simp add: inner_select_def send_ready_def chan_send_def)

lemma write_done:
  "context_Done (tree s) (writer_ctx w) \<Longrightarrow>
   writer_write s w x = Returns (ctxtree_Err s (writer_ctx w), s)"
  by (simp add: writer_write_def)

lemma write_room:
  assumes "\<not> context_Done (tree s) (writer_ctx w)"
    and "\<not> chan_closed (chans s ! writer_ch w)"
    and "length (chan_buf (chans s ! writer_ch w)) < chan_cap (chans s ! writer_ch w)"
  shows "writer_write s w x =
           Returns (None, s\<lparr>chans := (chans s)[writer_ch w :=
                      (chans s ! writer_ch w)\<lparr>chan_buf := chan_buf (chans s ! writer_ch w) @ [x]\<rparr>]\<rparr>)"
  using assms by (simp add: writer_write_def inner_select_def send_ready_def chan_send_def)

lemma write_full:
  assumes "\<not> context_Done (tree s) (writer_ctx w)"
    and "\<not> chan_closed (chans s ! writer_ch w)"
    and "chan_cap (chans s ! writer_ch w) \<le> length (chan_buf (chans s ! writer_ch w))"
  shows "writer_write s w x = Blocks"
  using assms by (simp add: writer_write_def inner_select_def send_ready_def chan_send_def)

lemma write_nil_enqueued:
  assumes "\<not> context_Done (tree s) (writer_ctx w)"
    and "writer_write s w x = Returns (None, s1)"
  shows "tree s1 = tree s \<and> causes s1 = causes s
       \<and> chans s1 = (chans s)[writer_ch w :=
                      (chans s ! writer_ch w)\<lparr>chan_buf := chan_buf (chans s ! writer_ch w) @ [x]\<rparr>]"
  using assms
  by (auto simp add: writer_write_def inner_select_def send_ready_def chan_send_def
      split: if_splits)

lemma Write_done_any:
  "context_Done (tree s) (writer_ctx w) \<Longrightarrow>
   writer_Write s w xs = Returns (if xs = [] then None else ctxtree_Err s (writer_ctx w), s)"
proof (induction xs)
  case Nil
  then show ?case by simp
next
  case (Cons x xs)
  show ?case
  proof (cases "ctxtree_Err s (writer_ctx w)")
    case None
    with Cons show ?thesis by (simp add: write_done)
  next
    case (Some e)
    with Cons.prems show ?thesis by (simp add: write_done)
  qed
qed

lemma Write_done:
  "context_Done (tree s) (writer_ctx w) \<Longrightarrow>
   writer_Write s w (x # xs) = Returns (ctxtree_Err s (writer_ctx w), s)"
  using Write_done_any [of s w "x # xs"] by simp

lemma Write_room:
  assumes "\<not> context_Done (tree s) (writer_ctx w)"
    and "writer_ch w < length (chans s)"
    and "\<not> chan_closed (chans s ! writer_ch w)"
    and "length (chan_buf (chans s ! writer_ch w)) + length xs \<le> chan_cap (chans s ! writer_ch w)"
  shows "writer_Write s w xs =
           Returns (None, s\<lparr>chans := (chans s)[writer_ch w :=
                      (chans s ! writer_ch w)\<lparr>chan_buf := chan_buf (chans s ! writer_ch w) @ xs\<rparr>]\<rparr>)"
  using assms
proof (induction xs arbitrary: s)
  case Nil
  then show ?case by simp
next
  case (Cons x xs)
  let ?c = "chans s ! writer_ch w"
  let ?s1 = "s\<lparr>chans := (chans s)[writer_ch w := ?c\<lparr>chan_buf := chan_buf ?c @ [x]\<rparr>]\<rparr>"
  have 1: "writer_write s w x = Returns (None, ?s1)"
    using Cons.prems by (intro write_room) simp_all
  have 2: "writer_Write ?s1 w xs =
           Returns (None, ?s1\<lparr>chans := (chans ?s1)[writer_ch w :=
                      (chans ?s1 ! writer_ch w)\<lparr>chan_buf := chan_buf (chans ?s1 ! writer_ch w) @ xs\<rparr>]\<rparr>)"
    using Cons.prems by (intro Cons.IH) simp_all
  from 1 2 Cons.prems(2) show ?case by simp
qed

lemma Write_nil_enqueued:
  assumes "\<not> context_Done (tree s) (writer_ctx w)"
    and "writer_Write s w xs = Returns (None, s1)"
  shows "tree s1 = tree s \<and> causes s1 = causes s
       \<and> chans s1 = (chans s)[writer_ch w :=
                      (chans s ! writer_ch w)\<lparr>chan_buf := chan_buf (chans s ! writer_ch w) @ xs\<rparr>]"
  using assms
proof (induction xs arbitrary: s)
  case Nil
  then show ?case by (simp add: list_update_same_conv)
next
  case (Cons x xs)
  from Cons.prems(2) obtain s' where a: "writer_write s w x = Returns (None, s')"
    and b: "writer_Write s' w xs = Returns (None, s1)"
    by (auto split: outcome.splits option.splits prod.splits)
  note A = write_nil_enqueued [OF Cons.prems(1) a]
  from A Cons.prems(1) have "\<not> context_Done (tree s') (writer_ctx w)" by simp
  note B = Cons.IH [OF this b]
  show ?case
  proof (cases "writer_ch w < length (chans s)")
    case True
    with A B show ?thesis by simp
  next
    case False
    with A B show ?thesis by (simp add: list_update_beyond)
  qed
qed

lemma Write_env_id: "writer_Write_env s w (map (Pair id) xs) = writer_Write s w xs"
  by (induction xs arbitrary: s) (auto split: outcome.splits option.splits prod.splits)

lemma Write_env_prefix:
  assumes "writer_Write s w xs = Returns (None, s1)"
  shows "writer_Write_env s w (map (Pair id) xs @ rest) = writer_Write_env s1 w rest"
  using assms
proof (induction xs arbitrary: s)
  case Nil
  then show ?case by simp
next
  case (Cons x xs)
  from Cons.prems obtain s' where a: "writer_write s w x = Returns (None, s')"
    and b: "writer_Write s' w xs = Returns (None, s1)"
    by (auto split: outcome.splits option.splits prod.splits)
  from a Cons.IH [OF b] show ?case by simp
qed

lemma recv_head:
  assumes "chan_buf (chans s ! c) = x # rest"
  shows "recv s c = Returns (Some x, s\<lparr>chans := (chans s)[c := (chans s ! c)\<lparr>chan_buf := rest\<rparr>]\<rparr>)"
  using assms by (simp add: recv_def chan_recv_def)

lemma recv_closed_empty:
  assumes "chan_buf (chans s ! c) = []" and "chan_closed (chans s ! c)" and "c < length (chans s)"
  shows "recv s c = Returns (None, s)"
  using assms by (simp add: recv_def chan_recv_def list_update_same_conv)

lemma recv_n_buffered:
  assumes "c < length (chans s)" and "n \<le> length (chan_buf (chans s ! c))"
  shows "recv_n s c n =
           Returns (take n (chan_buf (chans s ! c)),
                    s\<lparr>chans := (chans s)[c := (chans s ! c)\<lparr>chan_buf := drop n (chan_buf (chans s ! c))\<rparr>]\<rparr>)"
  using assms
proof (induction n arbitrary: s)
  case 0
  then show ?case by (simp add: list_update_same_conv)
next
  case (Suc n)
  then obtain x rest where b: "chan_buf (chans s ! c) = x # rest"
    by (cases "chan_buf (chans s ! c)") auto
  let ?s1 = "s\<lparr>chans := (chans s)[c := (chans s ! c)\<lparr>chan_buf := rest\<rparr>]\<rparr>"
  have 1: "recv s c = Returns (Some x, ?s1)" using b by (rule recv_head)
  have 2: "recv_n ?s1 c n =
           Returns (take n (chan_buf (chans ?s1 ! c)),
                    ?s1\<lparr>chans := (chans ?s1)[c := (chans ?s1 ! c)\<lparr>chan_buf := drop n (chan_buf (chans ?s1 ! c))\<rparr>]\<rparr>)"
    using Suc.prems b by (intro Suc.IH) simp_all
  from 1 2 b Suc.prems(1) show ?case by simp
qed

lemma root_heap_eq:
  "root_heap =
     \<lparr>now = 0, stds = [\<lparr>ancestors = [], timer = None, err = None\<rparr>],
      ctxs = [\<lparr>Context = 0, cancel = StdCancel 0, children = [], config = DefaultConfig\<rparr>]\<rparr>"
  by (simp add: root_heap_def context_New_def FromStdContext_def WithCancel_def empty_heap_def)

lemma wf_root_heap: "wf root_heap"
  unfolding root_heap_def by (rule wf_context_New [OF wf_empty])

lemma Close_root_heap: "context_Close root_heap 0 = Some root_heap_done"
  by (subst context_Close.simps)
     (simp add: root_heap_eq root_heap_done_def cancel_std_def enumerate_eq_zip)

lemma New_stream0: "stream_New root_world 0 = Returns (stream0 [] False, r0, w0)"
  by (simp add: stream_New_def root_world_def stream0_def r0_def w0_def make_chan_def
      context_Config_def root_heap_eq DefaultConfig_def)

lemma ctxtree_Close_total:
  assumes "wf (tree s)" and "ctx < length (ctxs (tree s))"
  shows "\<exists>s'. ctxtree_Close s ctx cause = Some s' \<and> wf (tree s')
            \<and> ctxs (tree s') = ctxs (tree s) \<and> chans s' = chans s"
proof (cases "context_Done (tree s) ctx")
  case True
  with assms show ?thesis by (simp add: ctxtree_Close_def)
next
  case False
  from context_Close_total [OF assms] obtain h' where
    "context_Close (tree s) ctx = Some h'" "wf h'" "ctxs h' = ctxs (tree s)"
    by blast
  with False show ?thesis by (simp add: ctxtree_Close_def)
qed

lemma ctxtree_Close_done:
  "context_Done (tree s) ctx \<Longrightarrow> ctxtree_Close s ctx cause = Some s"
  by (simp add: ctxtree_Close_def)

lemma ctxtree_Close_open_child:
  assumes "wf (tree s)" and "ctx < length (ctxs (tree s))"
    and o: "\<exists>c\<in>set (children (ctxs (tree s) ! ctx)). \<not> context_Done (tree s) c"
  shows "ctxtree_Close s ctx cause = Some s"
proof -
  from o have c: "context_Close (tree s) ctx = Some (tree s)" by (rule Close_open_child)
  from o obtain c where "c \<in> set (children (ctxs (tree s) ! ctx))" "\<not> context_Done (tree s) c"
    by blast
  then have "\<not> context_Done (tree s) ctx" by (rule open_child_open_parent [OF assms(1,2)])
  with c show ?thesis by (simp add: ctxtree_Close_def)
qed

lemma ctxtree_Close_records:
  assumes "ctxtree_Close s ctx cause = Some s'" and "\<not> context_Done (tree s) ctx"
    and "context_Done (tree s') ctx" and "ctx < length (ctxs (tree s'))"
  shows "ctxtree_Err s' ctx = cause \<and> chans s' = chans s"
proof -
  from assms(1,2) obtain h where h: "context_Close (tree s) ctx = Some h"
    and s': "s' = s\<lparr>tree := h,
                     causes := (\<lambda>n. if n < length (ctxs h) \<and> \<not> context_Done (tree s) n
                                        \<and> context_Done h n
                                     then cause else causes s n)\<rparr>"
    by (auto simp add: ctxtree_Close_def split: option.splits)
  from assms(3,4) have "context_Done h ctx" "ctx < length (ctxs h)" by (simp_all add: s')
  with assms(2) show ?thesis by (simp add: ctxtree_Err_def s')
qed

lemma not_done_root_heap: "\<not> context_Done root_heap 0"
  by (simp add: root_heap_eq context_Done_def std_Done_def)

lemma done_root_heap_done: "context_Done root_heap_done 0"
  by (simp add: root_heap_done_def context_Done_def std_Done_def)

lemma ctxtree_Close_stream0_graceful:
  "ctxtree_Close (stream0 items c) 0 None = Some ((stream0 items c)\<lparr>tree := root_heap_done\<rparr>)"
  by (simp add: ctxtree_Close_def stream0_def not_done_root_heap Close_root_heap
      cong: if_cong)

lemma ctxtree_Close_stream0_failure:
  "ctxtree_Close (stream0 items False) 0 (Some e) = Some (stream0_failed items e)"
proof -
  have "(\<lambda>n. if n < length (ctxs root_heap_done) \<and> \<not> context_Done root_heap n
                   \<and> context_Done root_heap_done n
              then Some e else None) = (\<lambda>n. None)(0 := Some e)"
    using not_done_root_heap done_root_heap_done
    by (auto simp add: fun_eq_iff root_heap_done_def)
  then show ?thesis
    by (simp add: ctxtree_Close_def stream0_def stream0_failed_def not_done_root_heap
        Close_root_heap cong: if_cong)
qed

lemma root_closes_stream0:
  "root_closes None (stream0 items c) = (stream0 items c)\<lparr>tree := root_heap_done\<rparr>"
  by (simp add: root_closes_def reader_Close_def r0_def ctxtree_Close_stream0_graceful)

lemma root_fails_stream0:
  "root_closes (Some e) (stream0 items False) = stream0_failed items e"
  by (simp add: root_closes_def reader_Close_def r0_def ctxtree_Close_stream0_failure)

lemma stream_New_fresh:
  assumes "stream_New s ctx = Returns (s0, r, w)"
  shows "tree s0 = tree s \<and> chans s0 = chans s @ [\<lparr>chan_buf = [],
             chan_cap = nat (BufferSize (context_Config (tree s) ctx)), chan_closed = False\<rparr>]
       \<and> 0 \<le> BufferSize (context_Config (tree s) ctx)
       \<and> r = \<lparr>reader_ctx = ctx, reader_ch = length (chans s)\<rparr>
       \<and> w = \<lparr>writer_ctx = ctx, writer_ch = length (chans s)\<rparr>"
  using assms by (auto simp add: stream_New_def make_chan_def split: if_splits)

section \<open>Writer.Write\<close>

text \<open>
  C10. \<^verbatim>\<open>Write\<close> called with no items returns nil and leaves the stream as it was,
  whatever the state of the bound context, done or not.
\<close>

theorem Write_no_items:
  "writer_Write s w [] = Returns (None, s)"
  by simp



text \<open>
  C3, amended. \<^verbatim>\<open>Write\<close> takes its items in order. Suppose the items \<open>before\<close> were
  written without failure and another goroutine then closes the bound context with a
  cause. The items \<open>before\<close> stay in the buffer. The next item is not enqueued and a
  \<^verbatim>\<open>Write\<close> on the closed context returns the recorded cause and changes nothing. With a
  cause that is not nil the call ends at that item, whatever follows. After a graceful
  close the recorded cause is nil: the call goes on, skips every later item as well, and
  returns nil.
\<close>

theorem Write_stops_at_close:
  assumes "writer_ch w < length (chans s)" and "\<not> context_Done (tree s) (writer_ctx w)"
    and "writer_Write s w before = Returns (None, s1)"
    and "ctxtree_Close s1 (writer_ctx w) cause = Some s2"
    and "context_Done (tree s2) (writer_ctx w)" and "writer_ctx w < length (ctxs (tree s2))"
    and "env s1 = s2"
  shows "chan_buf (chans s1 ! writer_ch w) = chan_buf (chans s ! writer_ch w) @ before
       \<and> chans s2 = chans s1
       \<and> writer_Write s2 w (item # items) = Returns (cause, s2)
       \<and> writer_Write_env s w (map (Pair id) before @ (env, item) # map (Pair id) items)
           = Returns (cause, s2)
       \<and> (cause \<noteq> None \<longrightarrow>
            writer_Write_env s w (map (Pair id) before @ (env, item) # rest)
              = Returns (cause, s2))"
proof -
  note N = Write_nil_enqueued [OF assms(2,3)]
  from N assms(1) have 1: "chan_buf (chans s1 ! writer_ch w) = chan_buf (chans s ! writer_ch w) @ before"
    by simp
  from N assms(2) have o: "\<not> context_Done (tree s1) (writer_ctx w)" by simp
  from ctxtree_Close_records [OF assms(4) o assms(5,6)]
  have e: "ctxtree_Err s2 (writer_ctx w) = cause" and 2: "chans s2 = chans s1" by simp_all
  have wr: "writer_write s2 w item = Returns (cause, s2)"
    using write_done [OF assms(5)] e by simp
  have 3: "writer_Write s2 w (item # items) = Returns (cause, s2)"
    using Write_done [OF assms(5)] e by simp
  have pre: "writer_Write_env s w (map (Pair id) before @ r) = writer_Write_env s1 w r" for r
    using assms(3) by (rule Write_env_prefix)
  have 4: "writer_Write_env s w (map (Pair id) before @ (env, item) # map (Pair id) items)
           = Returns (cause, s2)"
  proof (cases cause)
    case None
    have "writer_Write s2 w items = Returns (None, s2)"
      using Write_done_any [OF assms(5), of items] e None by simp
    with wr None show ?thesis by (simp add: pre assms(7) Write_env_id)
  next
    case (Some c)
    with wr show ?thesis by (simp add: pre assms(7))
  qed
  have 5: "cause \<noteq> None \<longrightarrow>
            writer_Write_env s w (map (Pair id) before @ (env, item) # rest) = Returns (cause, s2)"
  proof
    assume "cause \<noteq> None"
    then obtain c where "cause = Some c" by auto
    with wr show "writer_Write_env s w (map (Pair id) before @ (env, item) # rest)
                    = Returns (cause, s2)"
      by (simp add: pre assms(7))
  qed
  from 1 2 3 4 5 show ?thesis by blast
qed

theorem Write_stops_at_close_witness:
  "writer_ch w0 < length (chans (stream0 [] False))
   \<and> \<not> context_Done (tree (stream0 [] False)) (writer_ctx w0)
   \<and> writer_Write (stream0 [] False) w0 [1, 2] = Returns (None, stream0 [1, 2] False)
   \<and> ctxtree_Close (stream0 [1, 2] False) (writer_ctx w0) (Some (Failure ''boom''))
       = Some (stream0_failed [1, 2] (Failure ''boom''))
   \<and> context_Done (tree (stream0_failed [1, 2] (Failure ''boom''))) (writer_ctx w0)
   \<and> writer_ctx w0 < length (ctxs (tree (stream0_failed [1, 2] (Failure ''boom''))))
   \<and> root_closes (Some (Failure ''boom'')) (stream0 [1, 2] False)
       = stream0_failed [1, 2] (Failure ''boom'')
   \<and> chan_buf (chans (stream0_failed [1, 2] (Failure ''boom'')) ! writer_ch w0) = [1, 2]
   \<and> writer_Write_env (stream0 [] False) w0
         [(id, 1), (id, 2), (root_closes (Some (Failure ''boom'')), 3), (id, 4)]
       = Returns (Some (Failure ''boom''), stream0_failed [1, 2] (Failure ''boom''))
   \<and> writer_Write (stream0_failed [1, 2] (Failure ''boom'')) w0 [5, 6]
       = Returns (Some (Failure ''boom''), stream0_failed [1, 2] (Failure ''boom''))
   \<and> ctxtree_Close (stream0 [1, 2] False) (writer_ctx w0) None
       = Some ((stream0 [1, 2] False)\<lparr>tree := root_heap_done\<rparr>)
   \<and> writer_Write_env (stream0 [] False) w0
         [(id, 1), (id, 2), (root_closes None, 3), (id, 4)]
       = Returns (None, (stream0 [1, 2] False)\<lparr>tree := root_heap_done\<rparr>)"
proof -
  let ?e = "Failure ''boom''"
  let ?g = "(stream0 [1, 2] False)\<lparr>tree := root_heap_done\<rparr>"
  let ?f = "stream0_failed [1, 2] ?e"
  have l: "writer_ch w0 < length (chans (stream0 [] False))"
    by (simp add: stream0_def w0_def)
  have o: "\<not> context_Done (tree (stream0 [] False)) (writer_ctx w0)"
    by (simp add: stream0_def w0_def not_done_root_heap)
  have "writer_Write (stream0 [] False) w0 [1, 2] =
          Returns (None, (stream0 [] False)\<lparr>chans := (chans (stream0 [] False))[writer_ch w0 :=
                      (chans (stream0 [] False) ! writer_ch w0)
                        \<lparr>chan_buf := chan_buf (chans (stream0 [] False) ! writer_ch w0) @ [1, 2]\<rparr>]\<rparr>)"
    by (rule Write_room) (simp_all add: stream0_def w0_def not_done_root_heap)
  then have wr: "writer_Write (stream0 [] False) w0 [1, 2] = Returns (None, stream0 [1, 2] False)"
    by (simp add: stream0_def w0_def)
  have c: "ctxtree_Close (stream0 [1, 2] False) (writer_ctx w0) (Some ?e) = Some ?f"
    by (simp add: w0_def ctxtree_Close_stream0_failure)
  have d: "context_Done (tree ?f) (writer_ctx w0)"
    by (simp add: stream0_failed_def w0_def done_root_heap_done)
  have v: "writer_ctx w0 < length (ctxs (tree ?f))"
    by (simp add: stream0_failed_def w0_def root_heap_done_def)
  have r: "root_closes (Some ?e) (stream0 [1, 2] False) = ?f"
    by (rule root_fails_stream0)
  have b: "chan_buf (chans ?f ! writer_ch w0) = [1, 2]"
    by (simp add: stream0_failed_def stream0_def w0_def)
  have m: "map (Pair id) [1, 2 :: nat] @ (root_closes (Some ?e), 3) # [(id, 4)]
             = [(id, 1), (id, 2), (root_closes (Some ?e), 3), (id, 4)]"
    by simp
  note A = Write_stops_at_close [where env = "root_closes (Some ?e)" and item = 3
             and rest = "[(id, 4)]" and items = "[]", OF l o wr c d v r, unfolded m]
  note B = Write_stops_at_close [where env = "root_closes (Some ?e)" and item = 5
             and rest = "[]" and items = "[6]", OF l o wr c d v r]
  from A have A': "writer_Write_env (stream0 [] False) w0
                     [(id, 1), (id, 2), (root_closes (Some ?e), 3), (id, 4)]
                   = Returns (Some ?e, ?f)"
    by blast
  from B have B': "writer_Write ?f w0 [5, 6] = Returns (Some ?e, ?f)"
    by blast
  have c0: "ctxtree_Close (stream0 [1, 2] False) (writer_ctx w0) None = Some ?g"
    by (simp add: w0_def ctxtree_Close_stream0_graceful)
  have d0: "context_Done (tree ?g) (writer_ctx w0)"
    by (simp add: w0_def done_root_heap_done)
  have v0: "writer_ctx w0 < length (ctxs (tree ?g))"
    by (simp add: w0_def root_heap_done_def)
  have r0: "root_closes None (stream0 [1, 2] False) = ?g"
    by (rule root_closes_stream0)
  have m0: "map (Pair id) [1, 2 :: nat] @ (root_closes None, 3) # map (Pair id) [4]
             = [(id, 1), (id, 2), (root_closes None, 3), (id, 4)]"
    by simp
  note G = Write_stops_at_close [where env = "root_closes None" and item = 3
             and rest = "[]" and items = "[4]", OF l o wr c0 d0 v0 r0, unfolded m0]
  from G have G': "writer_Write_env (stream0 [] False) w0
                     [(id, 1), (id, 2), (root_closes None, 3), (id, 4)]
                   = Returns (None, ?g)"
    by blast
  from l o wr c d v r b A' B' c0 G' show ?thesis by blast
qed

text \<open>
  C3, counterexample. The context is closed gracefully through the reader and its
  \<^verbatim>\<open>Done\<close> has fired; a \<^verbatim>\<open>Write\<close> of one item then returns nil: it enqueues nothing,
  and it does not fail.
\<close>

theorem Write_after_graceful_close_counterexample:
  "reader_Close (stream0 [] False) r0 None
     = Returns ((stream0 [] False)\<lparr>tree := root_heap_done\<rparr>)
   \<and> reader_Done ((stream0 [] False)\<lparr>tree := root_heap_done\<rparr>) r0
   \<and> writer_Write ((stream0 [] False)\<lparr>tree := root_heap_done\<rparr>) w0 [3]
     = Returns (None, (stream0 [] False)\<lparr>tree := root_heap_done\<rparr>)"
proof (intro conjI)
  show "reader_Close (stream0 [] False) r0 None
     = Returns ((stream0 [] False)\<lparr>tree := root_heap_done\<rparr>)"
    by (simp add: reader_Close_def r0_def ctxtree_Close_stream0_graceful)
  show "reader_Done ((stream0 [] False)\<lparr>tree := root_heap_done\<rparr>) r0"
    by (simp add: reader_Done_def r0_def done_root_heap_done)
  have "context_Done (tree ((stream0 [] False)\<lparr>tree := root_heap_done\<rparr>)) (writer_ctx w0)"
    by (simp add: w0_def done_root_heap_done)
  from Write_done [OF this, of 3 "[]"]
  show "writer_Write ((stream0 [] False)\<lparr>tree := root_heap_done\<rparr>) w0 [3]
     = Returns (None, (stream0 [] False)\<lparr>tree := root_heap_done\<rparr>)"
    by (simp add: ctxtree_Err_def stream0_def w0_def)
qed

section \<open>Writer.Close\<close>

lemma open_child_blocks_Close:
  assumes "wf h" and "ctx < length (ctxs h)"
    and o: "\<exists>c\<in>set (children (ctxs h ! ctx)). \<not> context_Done h c"
  shows "context_Close h ctx = Some h \<and> \<not> context_Done h ctx"
proof
  from o show "context_Close h ctx = Some h" by (rule Close_open_child)
  from o obtain c where "c \<in> set (children (ctxs h ! ctx))" "\<not> context_Done h c" by blast
  then show "\<not> context_Done h ctx" by (rule open_child_open_parent [OF assms(1,2)])
qed

lemma Writer_Close_open:
  assumes "wf (tree s)" and "writer_ctx w < length (ctxs (tree s))"
    and "writer_ch w < length (chans s)" and "\<not> chan_closed (chans s ! writer_ch w)"
  shows "\<exists>s'. ctxtree_Close s (writer_ctx w) cause = Some s' \<and> wf (tree s')
            \<and> ctxs (tree s') = ctxs (tree s) \<and> chans s' = chans s
            \<and> writer_Close s w cause =
                Returns (s'\<lparr>chans := (chans s)[writer_ch w :=
                                  (chans s ! writer_ch w)\<lparr>chan_closed := True\<rparr>]\<rparr>)"
proof -
  from ctxtree_Close_total [OF assms(1,2), of cause] obtain s' where
    s': "ctxtree_Close s (writer_ctx w) cause = Some s'" "wf (tree s')"
      "ctxs (tree s') = ctxs (tree s)" "chans s' = chans s"
    by blast
  with assms(4) show ?thesis by (simp add: writer_Close_def chan_close_def)
qed

lemma Writer_Close_closed:
  assumes "wf (tree s)" and "writer_ctx w < length (ctxs (tree s))"
    and "chan_closed (chans s ! writer_ch w)"
  shows "writer_Close s w cause = Panics CloseOfClosedChannel"
proof -
  from ctxtree_Close_total [OF assms(1,2), of cause] obtain s' where
    "ctxtree_Close s (writer_ctx w) cause = Some s'" "chans s' = chans s" by blast
  with assms(3) show ?thesis by (simp add: writer_Close_def chan_close_def)
qed

text \<open>
  C8. On a stream whose buffer is still open, \<^verbatim>\<open>Writer.Close\<close> returns with the buffer
  closed and its contents untouched, whether or not the close of the context went through.
  When the context has an open child, the context is left as it was: the reader's
  \<^verbatim>\<open>Done\<close> has not fired, and a receive on the empty buffer reports the closed channel.
\<close>

theorem Writer_Close_closes_buffer:
  assumes "wf (tree s)" and "writer_ctx w < length (ctxs (tree s))"
    and "writer_ch w < length (chans s)" and "\<not> chan_closed (chans s ! writer_ch w)"
    and "reader_ctx r = writer_ctx w" and "reader_ch r = writer_ch w"
  shows "\<exists>s1. writer_Close s w cause = Returns s1
          \<and> chan_closed (chans s1 ! writer_ch w)
          \<and> chan_buf (chans s1 ! writer_ch w) = chan_buf (chans s ! writer_ch w)
          \<and> ((\<exists>c\<in>set (children (ctxs (tree s) ! writer_ctx w)). \<not> context_Done (tree s) c)
                \<longrightarrow> tree s1 = tree s \<and> \<not> reader_Done s1 r
                    \<and> (chan_buf (chans s ! writer_ch w) = []
                          \<longrightarrow> recv s1 (reader_Read r) = Returns (None, s1)))"
proof -
  let ?c = "writer_ch w"
  from Writer_Close_open [OF assms(1-4), of cause] obtain s' where
    s': "ctxtree_Close s (writer_ctx w) cause = Some s'" "chans s' = chans s"
    and s1: "writer_Close s w cause =
                Returns (s'\<lparr>chans := (chans s)[?c := (chans s ! ?c)\<lparr>chan_closed := True\<rparr>]\<rparr>)"
    by blast
  let ?s1 = "s'\<lparr>chans := (chans s)[?c := (chans s ! ?c)\<lparr>chan_closed := True\<rparr>]\<rparr>"
  have c: "chan_closed (chans ?s1 ! ?c)" "chan_buf (chans ?s1 ! ?c) = chan_buf (chans s ! ?c)"
    "?c < length (chans ?s1)"
    using assms(3) by simp_all
  have gated: "tree ?s1 = tree s \<and> \<not> reader_Done ?s1 r
                    \<and> (chan_buf (chans s ! ?c) = []
                          \<longrightarrow> recv ?s1 (reader_Read r) = Returns (None, ?s1))"
    if o: "\<exists>c\<in>set (children (ctxs (tree s) ! writer_ctx w)). \<not> context_Done (tree s) c"
  proof -
    from ctxtree_Close_open_child [OF assms(1,2) o, of cause] s'(1)
    have t: "s' = s" by simp
    from open_child_blocks_Close [OF assms(1,2) o]
    have n: "\<not> context_Done (tree s) (writer_ctx w)" by simp
    have "chan_buf (chans s ! ?c) = [] \<longrightarrow> recv ?s1 (reader_Read r) = Returns (None, ?s1)"
    proof
      assume "chan_buf (chans s ! ?c) = []"
      with c have "chan_buf (chans ?s1 ! ?c) = []" by simp
      from recv_closed_empty [OF this c(1) c(3)]
      show "recv ?s1 (reader_Read r) = Returns (None, ?s1)"
        by (simp add: reader_Read_def assms(6))
    qed
    with t n show ?thesis by (simp add: reader_Done_def assms(5))
  qed
  from s1 c gated show ?thesis by blast
qed


theorem Writer_Close_closes_buffer_witness:
  "wf (tree (parent_stream [] False))
   \<and> writer_ctx w0 < length (ctxs (tree (parent_stream [] False)))
   \<and> writer_ch w0 < length (chans (parent_stream [] False))
   \<and> \<not> chan_closed (chans (parent_stream [] False) ! writer_ch w0)
   \<and> reader_ctx r0 = writer_ctx w0 \<and> reader_ch r0 = writer_ch w0
   \<and> (\<exists>c\<in>set (children (ctxs (tree (parent_stream [] False)) ! writer_ctx w0)).
          \<not> context_Done (tree (parent_stream [] False)) c)
   \<and> chan_buf (chans (parent_stream [] False) ! writer_ch w0) = []
   \<and> (\<exists>s1. writer_Close (parent_stream [] False) w0 None = Returns s1
          \<and> chan_closed (chans s1 ! writer_ch w0)
          \<and> \<not> reader_Done s1 r0
          \<and> recv s1 (reader_Read r0) = Returns (None, s1))"
proof -
  have w: "wf (tree (parent_stream [] False))"
    by (simp add: parent_stream_def wf_root_with_child)
  have h: "writer_ctx w0 < length (ctxs (tree (parent_stream [] False)))"
    "writer_ch w0 < length (chans (parent_stream [] False))"
    "\<not> chan_closed (chans (parent_stream [] False) ! writer_ch w0)"
    "reader_ctx r0 = writer_ctx w0" "reader_ch r0 = writer_ch w0"
    by (simp_all add: parent_stream_def w0_def r0_def root_with_child_eq)
  have o: "\<exists>c\<in>set (children (ctxs (tree (parent_stream [] False)) ! writer_ctx w0)).
          \<not> context_Done (tree (parent_stream [] False)) c"
    by (simp add: parent_stream_def w0_def root_with_child_eq context_Done_def std_Done_def)
  have e: "chan_buf (chans (parent_stream [] False) ! writer_ch w0) = []"
    by (simp add: parent_stream_def w0_def)
  from Writer_Close_closes_buffer [OF w h, of None] w h o e show ?thesis by blast
qed

text \<open>
  C4, amended. The first \<^verbatim>\<open>Writer.Close\<close> on an open buffer returns with the
  buffer closed. A second \<^verbatim>\<open>Writer.Close\<close> on the same writer panics in the deferred
  \<^verbatim>\<open>close(writer.ch)\<close>: closing a closed channel.
\<close>

theorem Writer_Close_again_panics:
  assumes "wf (tree s)" and "writer_ctx w < length (ctxs (tree s))"
    and "writer_ch w < length (chans s)" and "\<not> chan_closed (chans s ! writer_ch w)"
  shows "\<exists>s1. writer_Close s w cause = Returns s1
          \<and> chan_closed (chans s1 ! writer_ch w)
          \<and> writer_Close s1 w cause' = Panics CloseOfClosedChannel"
proof -
  let ?c = "writer_ch w"
  from Writer_Close_open [OF assms, of cause] obtain s' where
    s': "wf (tree s')" "ctxs (tree s') = ctxs (tree s)"
    and s1: "writer_Close s w cause =
                Returns (s'\<lparr>chans := (chans s)[?c := (chans s ! ?c)\<lparr>chan_closed := True\<rparr>]\<rparr>)"
    by blast
  let ?s1 = "s'\<lparr>chans := (chans s)[?c := (chans s ! ?c)\<lparr>chan_closed := True\<rparr>]\<rparr>"
  have c: "chan_closed (chans ?s1 ! ?c)" using assms(3) by simp
  have "writer_Close ?s1 w cause' = Panics CloseOfClosedChannel"
    by (rule Writer_Close_closed) (use s' assms(2) c in simp_all)
  with s1 c show ?thesis by blast
qed

lemma Close_root_heap_done: "context_Close root_heap_done 0 = Some root_heap_done"
  by (subst context_Close.simps) (simp add: root_heap_done_def cancel_std_def)

theorem Writer_Close_again_panics_witness:
  "wf (tree (stream0 [] False)) \<and> writer_ctx w0 < length (ctxs (tree (stream0 [] False)))
   \<and> writer_ch w0 < length (chans (stream0 [] False))
   \<and> \<not> chan_closed (chans (stream0 [] False) ! writer_ch w0)
   \<and> (\<exists>s1. writer_Close (stream0 [] False) w0 None = Returns s1
          \<and> chan_closed (chans s1 ! writer_ch w0)
          \<and> writer_Close s1 w0 None = Panics CloseOfClosedChannel)"
proof -
  have w: "wf (tree (stream0 [] False))"
    by (simp add: stream0_def wf_root_heap)
  have h: "writer_ctx w0 < length (ctxs (tree (stream0 [] False)))"
    "writer_ch w0 < length (chans (stream0 [] False))"
    "\<not> chan_closed (chans (stream0 [] False) ! writer_ch w0)"
    by (simp_all add: stream0_def w0_def root_heap_eq)
  from Writer_Close_again_panics [OF w h, of None None] w h show ?thesis by blast
qed

text \<open>
  C4, counterexample. On the stream over a fresh root the first \<^verbatim>\<open>Writer.Close\<close>
  returns and the second one panics, so a repeated \<^verbatim>\<open>Close\<close> is not a no-op.
\<close>

theorem Writer_Close_twice_counterexample:
  "writer_Close (stream0 [] False) w0 None
     = Returns ((stream0 [] True)\<lparr>tree := root_heap_done\<rparr>)
   \<and> writer_Close ((stream0 [] True)\<lparr>tree := root_heap_done\<rparr>) w0 None
     = Panics CloseOfClosedChannel"
proof
  have "ctxtree_Close (stream0 [] False) (writer_ctx w0) None
          = Some ((stream0 [] False)\<lparr>tree := root_heap_done\<rparr>)"
    by (simp add: w0_def ctxtree_Close_stream0_graceful)
  then show "writer_Close (stream0 [] False) w0 None
     = Returns ((stream0 [] True)\<lparr>tree := root_heap_done\<rparr>)"
    by (simp add: writer_Close_def stream0_def w0_def chan_close_def)
  have "ctxtree_Close ((stream0 [] True)\<lparr>tree := root_heap_done\<rparr>) (writer_ctx w0) None
          = Some ((stream0 [] True)\<lparr>tree := root_heap_done\<rparr>)"
    by (rule ctxtree_Close_done) (simp add: w0_def done_root_heap_done)
  then show "writer_Close ((stream0 [] True)\<lparr>tree := root_heap_done\<rparr>) w0 None
     = Panics CloseOfClosedChannel"
    by (simp add: writer_Close_def stream0_def w0_def chan_close_def)
qed

text \<open>The exported \<^verbatim>\<open>Empty\<close> reader: its buffer is closed and its context is done.\<close>

lemma Empty_closed:
  "Empty \<lparr>tree = empty_heap, causes = (\<lambda>n. None), chans = []\<rparr> = Returns ((stream0 [] True)\<lparr>tree := root_heap_done\<rparr>, r0)"
proof -
  have 1: "context_New empty_heap = (root_heap, 0)"
    by (simp add: prod_eq_iff root_heap_def context_New_def FromStdContext_eq empty_heap_def)
  have 2: "stream_New \<lparr>tree = root_heap, causes = (\<lambda>n. None), chans = []\<rparr> 0 = Returns (stream0 [] False, r0, w0)"
    using New_stream0 by (simp add: root_world_def)
  have "ctxtree_Close (stream0 [] False) (writer_ctx w0) None
          = Some ((stream0 [] False)\<lparr>tree := root_heap_done\<rparr>)"
    by (simp add: w0_def ctxtree_Close_stream0_graceful)
  then have 3: "writer_Close (stream0 [] False) w0 None
             = Returns ((stream0 [] True)\<lparr>tree := root_heap_done\<rparr>)"
    by (simp add: writer_Close_def stream0_def w0_def chan_close_def)
  show ?thesis by (simp add: Empty_def 1 2 3)
qed

section \<open>Reader.Read after the context has closed\<close>

text \<open>
  C5, amended. Once the bound context is done, \<^verbatim>\<open>Write\<close> of one or more items returns
  and enqueues nothing. \<^verbatim>\<open>Read\<close> returns the channel itself and does not look at the
  context, so the items in the buffer at that moment are still received, all of them and in
  order. A writer that is already in its inner \<^verbatim>\<open>select\<close> when the context becomes done
  returns without enqueuing if the receive from \<^verbatim>\<open>Done\<close> is chosen, and enqueues its item
  if the buffer has room and the send is chosen.
\<close>

theorem closed_context_still_delivers:
  assumes "reader_Done s r" and "reader_ctx r = writer_ctx w" and "reader_ch r = writer_ch w"
    and "reader_ch r < length (chans s)"
  shows "(\<exists>e. writer_Write s w (item # items) = Returns (e, s))
       \<and> (\<exists>s'. recv_n s (reader_Read r) (length (chan_buf (chans s ! reader_ch r)))
                  = Returns (chan_buf (chans s ! reader_ch r), s'))
       \<and> (\<exists>e. inner_select s w item False = Returns (e, s))
       \<and> (\<not> chan_closed (chans s ! writer_ch w)
            \<and> length (chan_buf (chans s ! writer_ch w)) < chan_cap (chans s ! writer_ch w)
          \<longrightarrow> inner_select s w item True =
                Returns (None, s\<lparr>chans := (chans s)[writer_ch w :=
                   (chans s ! writer_ch w)\<lparr>chan_buf := chan_buf (chans s ! writer_ch w) @ [item]\<rparr>]\<rparr>))"
proof -
  from assms(1,2) have d: "context_Done (tree s) (writer_ctx w)" by (simp add: reader_Done_def)
  have "recv_n s (reader_ch r) (length (chan_buf (chans s ! reader_ch r))) =
          Returns (take (length (chan_buf (chans s ! reader_ch r))) (chan_buf (chans s ! reader_ch r)),
                   s\<lparr>chans := (chans s)[reader_ch r := (chans s ! reader_ch r)
                       \<lparr>chan_buf := drop (length (chan_buf (chans s ! reader_ch r)))
                                          (chan_buf (chans s ! reader_ch r))\<rparr>]\<rparr>)"
    using assms(4) by (intro recv_n_buffered) simp_all
  then have "\<exists>s'. recv_n s (reader_Read r) (length (chan_buf (chans s ! reader_ch r)))
                  = Returns (chan_buf (chans s ! reader_ch r), s')"
    by (simp add: reader_Read_def)
  with Write_done [OF d, of item items] inner_select_done_not_chosen [OF d, of item]
    inner_select_done_send_chosen [of s w item]
  show ?thesis by blast
qed

theorem closed_context_still_delivers_witness:
  "reader_Done ((stream0 [7, 8] False)\<lparr>tree := root_heap_done\<rparr>) r0
   \<and> reader_ctx r0 = writer_ctx w0 \<and> reader_ch r0 = writer_ch w0
   \<and> reader_ch r0 < length (chans ((stream0 [7, 8] False)\<lparr>tree := root_heap_done\<rparr>))
   \<and> \<not> chan_closed (chans ((stream0 [7, 8] False)\<lparr>tree := root_heap_done\<rparr>) ! writer_ch w0)
   \<and> length (chan_buf (chans ((stream0 [7, 8] False)\<lparr>tree := root_heap_done\<rparr>) ! writer_ch w0))
       < chan_cap (chans ((stream0 [7, 8] False)\<lparr>tree := root_heap_done\<rparr>) ! writer_ch w0)
   \<and> (\<exists>e. writer_Write ((stream0 [7, 8] False)\<lparr>tree := root_heap_done\<rparr>) w0 [9]
             = Returns (e, (stream0 [7, 8] False)\<lparr>tree := root_heap_done\<rparr>))
   \<and> (\<exists>s'. recv_n ((stream0 [7, 8] False)\<lparr>tree := root_heap_done\<rparr>) (reader_Read r0) 2
              = Returns ([7, 8], s'))
   \<and> (\<exists>e. inner_select ((stream0 [7, 8] False)\<lparr>tree := root_heap_done\<rparr>) w0 9 False
             = Returns (e, (stream0 [7, 8] False)\<lparr>tree := root_heap_done\<rparr>))
   \<and> inner_select ((stream0 [7, 8] False)\<lparr>tree := root_heap_done\<rparr>) w0 9 True
       = Returns (None, (stream0 [7, 8, 9] False)\<lparr>tree := root_heap_done\<rparr>)"
proof -
  let ?s = "(stream0 [7, 8] False)\<lparr>tree := root_heap_done\<rparr>"
  have h: "reader_Done ?s r0" "reader_ctx r0 = writer_ctx w0" "reader_ch r0 = writer_ch w0"
    "reader_ch r0 < length (chans ?s)"
    by (simp_all add: stream0_def r0_def w0_def reader_Done_def done_root_heap_done)
  have room: "\<not> chan_closed (chans ?s ! writer_ch w0)"
    "length (chan_buf (chans ?s ! writer_ch w0)) < chan_cap (chans ?s ! writer_ch w0)"
    by (simp_all add: stream0_def w0_def)
  have b: "chan_buf (chans ?s ! reader_ch r0) = [7, 8]" "length [7, 8 :: nat] = 2"
    by (simp_all add: stream0_def r0_def)
  have u: "?s\<lparr>chans := (chans ?s)[writer_ch w0 :=
                   (chans ?s ! writer_ch w0)\<lparr>chan_buf := chan_buf (chans ?s ! writer_ch w0) @ [9]\<rparr>]\<rparr>
           = (stream0 [7, 8, 9] False)\<lparr>tree := root_heap_done\<rparr>"
    by (simp add: stream0_def w0_def)
  note A = closed_context_still_delivers [OF h, of 9 "[]", unfolded b u]
  from A h room show ?thesis by blast
qed

text \<open>
  C5, counterexample. An item is written, the context is closed through the reader, the
  reader's \<^verbatim>\<open>Done\<close> has fired, and a receive on \<^verbatim>\<open>Read\<close> still delivers the item.
\<close>

theorem delivery_after_close_counterexample:
  "writer_Write (stream0 [] False) w0 [7] = Returns (None, stream0 [7] False)
   \<and> reader_Close (stream0 [7] False) r0 None
       = Returns ((stream0 [7] False)\<lparr>tree := root_heap_done\<rparr>)
   \<and> reader_Done ((stream0 [7] False)\<lparr>tree := root_heap_done\<rparr>) r0
   \<and> recv ((stream0 [7] False)\<lparr>tree := root_heap_done\<rparr>) (reader_Read r0)
       = Returns (Some 7, (stream0 [] False)\<lparr>tree := root_heap_done\<rparr>)"
proof (intro conjI)
  show "writer_Write (stream0 [] False) w0 [7] = Returns (None, stream0 [7] False)"
    by (simp add: stream0_def w0_def writer_write_def inner_select_def send_ready_def chan_send_def
        context_Done_def std_Done_def root_heap_eq)
  show "reader_Close (stream0 [7] False) r0 None
       = Returns ((stream0 [7] False)\<lparr>tree := root_heap_done\<rparr>)"
    by (simp add: r0_def reader_Close_def ctxtree_Close_stream0_graceful)
  show "reader_Done ((stream0 [7] False)\<lparr>tree := root_heap_done\<rparr>) r0"
    by (simp add: r0_def reader_Done_def context_Done_def std_Done_def root_heap_done_def)
  show "recv ((stream0 [7] False)\<lparr>tree := root_heap_done\<rparr>) (reader_Read r0)
       = Returns (Some 7, (stream0 [] False)\<lparr>tree := root_heap_done\<rparr>)"
    by (simp add: stream0_def r0_def reader_Read_def recv_def chan_recv_def)
qed

section \<open>The configured timeout\<close>

lemma fire_keeps:
  assumes "k < length (stds h)" and "ancestors (stds h ! k) = []" and "timer (stds h ! k) = None"
  shows "stds (fire j h) ! k = stds h ! k \<and> length (stds (fire j h)) = length (stds h)
         \<and> ctxs (fire j h) = ctxs h"
proof (cases "timer (stds h ! j)")
  case None
  then show ?thesis by (simp add: fire_def)
next
  case (Some t)
  with assms(3) have "j \<noteq> k" by auto
  with assms(1,2) have "stds (cancel_std h j DeadlineExceeded) ! k = stds h ! k"
    by (simp add: nth_cancel_std)
  with Some show ?thesis by (simp add: fire_def)
qed

lemma fold_fire_keeps:
  assumes "k < length (stds h)" and "ancestors (stds h ! k) = []" and "timer (stds h ! k) = None"
  shows "stds (fold fire js h) ! k = stds h ! k \<and> length (stds (fold fire js h)) = length (stds h)
         \<and> ctxs (fold fire js h) = ctxs h"
  using assms
proof (induction js arbitrary: h)
  case Nil
  then show ?case by simp
next
  case (Cons j js)
  note F = fire_keeps [OF Cons.prems, of j]
  from F Cons.prems have "stds (fold fire js (fire j h)) ! k = stds (fire j h) ! k
         \<and> length (stds (fold fire js (fire j h))) = length (stds (fire j h))
         \<and> ctxs (fold fire js (fire j h)) = ctxs (fire j h)"
    by (intro Cons.IH) simp_all
  with F show ?case by simp
qed

lemma elapse_keeps:
  assumes "k < length (stds h)" and "ancestors (stds h ! k) = []" and "timer (stds h ! k) = None"
  shows "stds (elapse h d) ! k = stds h ! k \<and> ctxs (elapse h d) = ctxs h"
  using fold_fire_keeps [of k "h\<lparr>now := now h + d\<rparr>" "[0..<length (stds h)]"] assms
  by (simp add: elapse_def)

lemma New_root_never_expires:
  "context_Err (elapse (fst (context_New h)) d) (snd (context_New h)) = None"
proof -
  let ?h' = "fst (context_New h)"
  let ?k = "length (stds h)"
  have s: "stds ?h' = stds h @ [\<lparr>ancestors = [], timer = None, err = None\<rparr>]"
    and c: "ctxs ?h' = ctxs h @ [\<lparr>Context = ?k, cancel = StdCancel ?k, children = [],
                                  config = DefaultConfig\<rparr>]"
    and r: "snd (context_New h) = length (ctxs h)"
    by (simp_all add: context_New_def FromStdContext_eq WithCancel_stds)
  have "stds (elapse ?h' d) ! ?k = stds ?h' ! ?k \<and> ctxs (elapse ?h' d) = ctxs ?h'"
    by (rule elapse_keeps) (simp_all add: s)
  then show ?thesis by (simp add: context_Err_def r c s)
qed

lemma deadline_context_expires:
  "context_Err (elapse (fst (FromStdContext (fst (WithDeadline empty_heap Background 10)) (Std 0))) 10) 0
     = Some DeadlineExceeded"
  by (simp add: FromStdContext_def WithCancel_def WithDeadline_def empty_heap_def Let_def
      elapse_def fire_def cancel_std_def context_Err_def enumerate_eq_zip upt_rec)

text \<open>
  C7, evaluated on package context. \<^verbatim>\<open>New\<close> derives the root with \<^verbatim>\<open>WithCancel\<close> from
  \<^verbatim>\<open>Background\<close> and nothing reads \<^verbatim>\<open>Config.Timeout\<close>: the root carries the default
  timeout of five seconds, yet however much time elapses its \<^verbatim>\<open>Err\<close> stays nil and it is
  not done.
\<close>

theorem Timeout_never_fires:
  "Timeout (context_Config (fst (context_New h)) (snd (context_New h))) = 5000000000
   \<and> context_Err (elapse (fst (context_New h)) d) (snd (context_New h)) = None
   \<and> \<not> context_Done (elapse (fst (context_New h)) d) (snd (context_New h))"
proof (intro conjI)
  show "Timeout (context_Config (fst (context_New h)) (snd (context_New h))) = 5000000000"
    by (simp add: context_New_def FromStdContext_eq context_Config_def DefaultConfig_def)
  show e: "context_Err (elapse (fst (context_New h)) d) (snd (context_New h)) = None"
    by (rule New_root_never_expires)
  then show "\<not> context_Done (elapse (fst (context_New h)) d) (snd (context_New h))"
    by (simp add: context_Done_def std_Done_def context_Err_def)
qed

end
